theory Spec2Isabelle
  imports Main "HOL-Library.Log_Nat" "HOL-Library.Word" "HOL-Library.Multiset"
begin

section \<open>The C library as BoatManagement.c uses it\<close>

text \<open>
  A C string is a \<open>string\<close> (a list of bytes) read up to its first NUL. The functions
  below follow ISO C and POSIX in the "C" locale, which is the locale of the program
  (it never calls setlocale).
\<close>

subsection \<open>Characters and strings\<close>

definition NUL :: char where
  "NUL = CHR 0x00"

definition newline :: char where
  "newline = CHR 0x0A"

definition isupper :: "char \<Rightarrow> bool" where
  "isupper c = (65 \<le> (of_char c :: nat) \<and> (of_char c :: nat) \<le> 90)"

definition islower :: "char \<Rightarrow> bool" where
  "islower c = (97 \<le> (of_char c :: nat) \<and> (of_char c :: nat) \<le> 122)"

definition tolower :: "char \<Rightarrow> char" where
  "tolower c = (if isupper c then char_of ((of_char c :: nat) + 32) else c)"

definition toupper :: "char \<Rightarrow> char" where
  "toupper c = (if islower c then char_of ((of_char c :: nat) - 32) else c)"

definition isdigit :: "char \<Rightarrow> bool" where
  "isdigit c = (48 \<le> (of_char c :: nat) \<and> (of_char c :: nat) \<le> 57)"

definition isxdigit :: "char \<Rightarrow> bool" where
  "isxdigit c = (isdigit c \<or> (97 \<le> (of_char (tolower c) :: nat) \<and> (of_char (tolower c) :: nat) \<le> 102))"

definition isspace :: "char \<Rightarrow> bool" where
  "isspace c = ((of_char c :: nat) = 32 \<or> (9 \<le> (of_char c :: nat) \<and> (of_char c :: nat) \<le> 13))"

text \<open>The bytes of a buffer that C sees as its string: those before the first NUL.\<close>

definition cstr :: "string \<Rightarrow> string" where
  "cstr s = takeWhile (\<lambda>c. c \<noteq> NUL) s"

text \<open>
  \<open>strcmp\<close> and \<open>strcasecmp\<close> compare bytes as unsigned char and stop at a NUL; the
  result is the difference of the first two bytes that differ.
\<close>

fun strcmp :: "string \<Rightarrow> string \<Rightarrow> int" where
  "strcmp [] [] = 0"
| "strcmp [] (y # ys) = - int (of_char y)"
| "strcmp (x # xs) [] = int (of_char x)"
| "strcmp (x # xs) (y # ys) =
     (if x \<noteq> y then int (of_char x) - int (of_char y)
      else if x = NUL then 0 else strcmp xs ys)"

fun strcasecmp :: "string \<Rightarrow> string \<Rightarrow> int" where
  "strcasecmp [] [] = 0"
| "strcasecmp [] (y # ys) = - int (of_char (tolower y))"
| "strcasecmp (x # xs) [] = int (of_char (tolower x))"
| "strcasecmp (x # xs) (y # ys) =
     (if tolower x \<noteq> tolower y then int (of_char (tolower x)) - int (of_char (tolower y))
      else if tolower x = NUL then 0 else strcasecmp xs ys)"

text \<open>
  \<open>buffer[strcspn(buffer, "\n")] = '\0'\<close>: the string is cut at its first newline.
\<close>

definition strip_newline :: "string \<Rightarrow> string" where
  "strip_newline s = takeWhile (\<lambda>c. c \<noteq> newline) s"

text \<open>
  \<open>strtok_r(rest, ",", &rest)\<close>: leading commas are skipped; if nothing is left there is
  no token (NULL); otherwise the token runs to the next comma or to the end, and
  \<open>rest\<close> continues behind that comma. An empty field therefore never comes back as an
  empty token: it is skipped.
\<close>

definition strtok_r :: "string \<Rightarrow> string option \<times> string" where
  "strtok_r s =
     (let s1 = dropWhile (\<lambda>c. c = CHR '','') s
      in if s1 = [] then (None, [])
         else (Some (takeWhile (\<lambda>c. c \<noteq> CHR '','') s1),
               drop 1 (dropWhile (\<lambda>c. c \<noteq> CHR '','') s1)))"

text \<open>
  \<open>fgets(buf, size, stream)\<close> on a stream whose unread bytes are \<open>s\<close>: NULL (\<open>None\<close>)
  at end of file, otherwise at most \<open>size - 1\<close> bytes, stopping behind a newline; the
  result is the buffer and the bytes left unread.
\<close>

fun fgets_read :: "nat \<Rightarrow> string \<Rightarrow> string \<times> string" where
  "fgets_read n [] = ([], [])"
| "fgets_read n (c # s) =
     (if n = 0 then ([], c # s)
      else if c = newline then ([c], s)
      else (case fgets_read (n - 1) s of (l, r) \<Rightarrow> (c # l, r)))"

definition fgets :: "nat \<Rightarrow> string \<Rightarrow> (string \<times> string) option" where
  "fgets n s = (if s = [] then None else Some (fgets_read (n - 1) s))"

subsection \<open>Integers: atoi and printf's d conversion\<close>

text \<open>The value of a digit, and of a run of digits in a base, as integers.\<close>

definition digit_val :: "char \<Rightarrow> int" where
  "digit_val c = (of_char c :: int) - 48"

definition xdigit_val :: "char \<Rightarrow> int" where
  "xdigit_val c = (if isdigit c then digit_val c else (of_char (tolower c) :: int) - 87)"

fun digits_val :: "int \<Rightarrow> int \<Rightarrow> string \<Rightarrow> int" where
  "digits_val base acc [] = acc"
| "digits_val base acc (c # cs) = digits_val base (acc * base + xdigit_val c) cs"

definition digit_char :: "int \<Rightarrow> char" where
  "digit_char d = char_of (48 + d)"

text \<open>The decimal digits of an integer that is not negative.\<close>

function show_dec :: "int \<Rightarrow> string" where
  "show_dec n = (if n < 10 then [digit_char n] else show_dec (n div 10) @ [digit_char (n mod 10)])"
  by pat_completeness auto
termination
  by (relation "measure nat") auto

declare show_dec.simps [simp del]

definition show_int :: "int \<Rightarrow> string" where
  "show_int i = (if i < 0 then CHR ''-'' # show_dec (- i) else show_dec i)"

text \<open>
  An optional sign in front of a number: the sign (\<open>True\<close> for minus) and the text
  behind it.
\<close>

definition read_sign :: "string \<Rightarrow> bool \<times> string" where
  "read_sign s =
     (case s of
        c # cs \<Rightarrow> if c = CHR ''-'' then (True, cs) else if c = CHR ''+'' then (False, cs) else (False, s)
      | [] \<Rightarrow> (False, s))"

text \<open>
  \<open>atoi(s)\<close> is \<open>(int) strtol(s, NULL, 10)\<close>: white space, an optional sign, decimal
  digits up to the first other byte; no digits give 0. ISO C leaves a value outside
  \<open>int\<close> undefined; glibc on a 64-bit system saturates at the bounds of \<open>long\<close> and the
  cast keeps the low 32 bits, which is what is written here.
\<close>

definition atoi :: "string \<Rightarrow> 32 word" where
  "atoi s =
     (case read_sign (dropWhile isspace s) of
        (neg, r) \<Rightarrow>
          let n = digits_val 10 0 (takeWhile isdigit r);
              v = (if neg then - n else n)
          in word_of_int (max (- (2 ^ 63)) (min (2 ^ 63 - 1) v)))"

text \<open>\<open>printf("%d", w)\<close>.\<close>

definition printf_d :: "32 word \<Rightarrow> string" where
  "printf_d w = show_int (sint w)"

subsection \<open>Floating point: float, double, atof and printf's f conversion\<close>

text \<open>
  \<open>float\<close> is IEEE 754 binary32 and \<open>double\<close> binary64, rounding to nearest, ties to
  even, each operation rounded to the format of its C type (FLT_EVAL_METHOD 0, as on
  x86-64). A value of either format is a rational number, a negative zero, an
  infinity or a NaN; \<open>Finite 0\<close> is the positive zero. A NaN carries its sign bit
  (\<open>True\<close> for minus), which printf shows; its payload is not modelled. ISO C leaves
  the sign of a NaN that an operation makes open; here it is as on x86-64 with SSE:
  an invalid operation gives the negative default NaN, and an operation on a NaN
  gives that NaN, the left operand first.
\<close>

datatype ieee = Finite rat | NegZero | PosInf | NegInf | NaN bool

text \<open>Rounding a rational to the nearest integer, ties to the even one.\<close>

definition round_even :: "rat \<Rightarrow> int" where
  "round_even x =
     (let f = \<lfloor>x\<rfloor>; d = x - of_int f
      in if d < 1 / 2 then f
         else if 1 / 2 < d then f + 1
         else if even f then f else f + 1)"

text \<open>\<open>ilog2 x\<close> is the integer \<open>e\<close> with \<open>2 ^ e \<le> x < 2 ^ (e + 1)\<close>, for a positive \<open>x\<close>.\<close>

text \<open>
  Powers with an integer exponent are evaluated by squaring: \<open>ipow b k\<close> is
  \<open>b powi k\<close>.
\<close>

function ipow :: "rat \<Rightarrow> int \<Rightarrow> rat" where
  "ipow b k =
     (if k < 0 then 1 / ipow b (- k)
      else if k = 0 then 1
      else if even k then ipow b (k div 2) * ipow b (k div 2)
      else b * ipow b (k div 2) * ipow b (k div 2))"
  by pat_completeness auto
termination
  by (relation "measure (\<lambda>(b, k). if k < 0 then nat (- k) + 1 else nat k)") auto

declare ipow.simps [simp del]

lemma ipow_nonneg: "0 \<le> k \<Longrightarrow> ipow b k = b ^ nat k"
proof (induction b k rule: ipow.induct)
  case (1 b k)
  show ?case
  proof (cases "k = 0")
    case True
    then show ?thesis by (subst ipow.simps) simp
  next
    case False
    with 1 have kp: "0 < k" by simp
    then have ih: "ipow b (k div 2) = b ^ nat (k div 2)"
      using 1 by (cases "even k") simp_all
    show ?thesis
    proof (cases "even k")
      case True
      then have "k = 2 * (k div 2)" by simp
      then have "nat k = nat (k div 2) + nat (k div 2)" using kp by linarith
      then have "b ^ nat k = b ^ nat (k div 2) * b ^ nat (k div 2)"
        by (simp add: power_add)
      with True kp ih show ?thesis by (subst ipow.simps) simp
    next
      case False
      then have "k = 2 * (k div 2) + 1" by presburger
      then have "nat k = Suc (nat (k div 2) + nat (k div 2))" using kp by linarith
      then have "b ^ nat k = b * b ^ nat (k div 2) * b ^ nat (k div 2)"
        by (simp add: power_add)
      with False kp ih show ?thesis by (subst ipow.simps) simp
    qed
  qed
qed

lemma ipow_powi: "ipow b k = b powi k"
proof (cases "0 \<le> k")
  case True
  then show ?thesis by (simp add: ipow_nonneg power_int_def)
next
  case False
  then have "ipow b k = 1 / ipow b (- k)" by (subst ipow.simps) simp
  with False show ?thesis by (simp add: ipow_nonneg power_int_def field_simps)
qed

lemma powi_by_squaring [code_unfold]: "(b :: rat) powi k = ipow b k"
  by (simp add: ipow_powi)

definition ilog2 :: "rat \<Rightarrow> int" where
  "ilog2 x =
     (case quotient_of x of
        (a, b) \<Rightarrow>
          let k = bitlen a - bitlen b
          in if 2 powi k \<le> x then k else k - 1)"

text \<open>
  Rounding to a binary format of precision \<open>p\<close> whose normal exponents are
  \<open>emin .. emax\<close>: below \<open>2 ^ emin\<close> the spacing of the subnormal numbers is kept; a
  result of magnitude \<open>2 ^ (emax + 1)\<close> or more is an infinity; a result that rounds to
  zero keeps the sign.
\<close>

definition fp_round :: "nat \<Rightarrow> int \<Rightarrow> int \<Rightarrow> rat \<Rightarrow> ieee" where
  "fp_round p emin emax x =
     (if x = 0 then Finite 0
      else
        let e = max (ilog2 \<bar>x\<bar>) emin;
            q = 2 powi (e - int p + 1);
            r = of_int (round_even (x / q)) * q
        in if 2 powi (emax + 1) \<le> \<bar>r\<bar> then (if 0 < x then PosInf else NegInf)
           else if r = 0 then (if 0 < x then Finite 0 else NegZero)
           else Finite r)"

definition round32 :: "rat \<Rightarrow> ieee" where
  "round32 = fp_round 24 (- 126) 127"

definition round64 :: "rat \<Rightarrow> ieee" where
  "round64 = fp_round 53 (- 1022) 1023"

text \<open>The conversion of a \<open>double\<close> to \<open>float\<close>, as an assignment to a float makes it.\<close>

fun to_float :: "ieee \<Rightarrow> ieee" where
  "to_float (Finite x) = round32 x"
| "to_float v = v"

fun fp_neg :: "ieee \<Rightarrow> ieee" where
  "fp_neg (Finite x) = (if x = 0 then NegZero else Finite (- x))"
| "fp_neg NegZero = Finite 0"
| "fp_neg PosInf = NegInf"
| "fp_neg NegInf = PosInf"
| "fp_neg (NaN s) = NaN (\<not> s)"

text \<open>
  Addition, rounded by \<open>rnd\<close>: a zero sum of two numbers is the positive zero, unless both
  are the negative zero.
\<close>

fun fp_add :: "(rat \<Rightarrow> ieee) \<Rightarrow> ieee \<Rightarrow> ieee \<Rightarrow> ieee" where
  "fp_add rnd (NaN s) y = NaN s"
| "fp_add rnd x (NaN s) = NaN s"
| "fp_add rnd PosInf NegInf = NaN True"
| "fp_add rnd NegInf PosInf = NaN True"
| "fp_add rnd PosInf y = PosInf"
| "fp_add rnd NegInf y = NegInf"
| "fp_add rnd x PosInf = PosInf"
| "fp_add rnd x NegInf = NegInf"
| "fp_add rnd NegZero y = y"
| "fp_add rnd x NegZero = x"
| "fp_add rnd (Finite x) (Finite y) = (if x + y = 0 then Finite 0 else rnd (x + y))"

text \<open>Subtraction adds the negated number; a NaN operand stays as it is.\<close>

fun fp_sub :: "(rat \<Rightarrow> ieee) \<Rightarrow> ieee \<Rightarrow> ieee \<Rightarrow> ieee" where
  "fp_sub rnd (NaN s) y = NaN s"
| "fp_sub rnd x (NaN s) = NaN s"
| "fp_sub rnd x y = fp_add rnd x (fp_neg y)"

text \<open>The sign bit, and whether a value is a zero, an infinity or a NaN.\<close>

fun fp_negative :: "ieee \<Rightarrow> bool" where
  "fp_negative (Finite x) = (x < 0)"
| "fp_negative NegZero = True"
| "fp_negative PosInf = False"
| "fp_negative NegInf = True"
| "fp_negative (NaN s) = s"

fun fp_is_zero :: "ieee \<Rightarrow> bool" where
  "fp_is_zero (Finite x) = (x = 0)"
| "fp_is_zero NegZero = True"
| "fp_is_zero v = False"

fun fp_is_inf :: "ieee \<Rightarrow> bool" where
  "fp_is_inf PosInf = True"
| "fp_is_inf NegInf = True"
| "fp_is_inf v = False"

fun fp_is_nan :: "ieee \<Rightarrow> bool" where
  "fp_is_nan (NaN s) = True"
| "fp_is_nan v = False"

fun fp_mul :: "(rat \<Rightarrow> ieee) \<Rightarrow> ieee \<Rightarrow> ieee \<Rightarrow> ieee" where
  "fp_mul rnd (NaN s) y = NaN s"
| "fp_mul rnd x (NaN s) = NaN s"
| "fp_mul rnd (Finite x) (Finite y) =
     (if x * y = 0 then (if (x < 0) \<noteq> (y < 0) then NegZero else Finite 0) else rnd (x * y))"
| "fp_mul rnd x y =
     (if (fp_is_inf x \<and> fp_is_zero y) \<or> (fp_is_zero x \<and> fp_is_inf y) then NaN True
      else if fp_is_inf x \<or> fp_is_inf y
      then (if fp_negative x \<noteq> fp_negative y then NegInf else PosInf)
      else (if fp_negative x \<noteq> fp_negative y then NegZero else Finite 0))"

text \<open>
  The comparison \<open>x > y\<close>: false when either side is a NaN; the two zeros are equal.
\<close>

fun fp_rank :: "ieee \<Rightarrow> int \<times> rat" where
  "fp_rank (Finite x) = (0, x)"
| "fp_rank NegZero = (0, 0)"
| "fp_rank PosInf = (1, 0)"
| "fp_rank NegInf = (- 1, 0)"
| "fp_rank (NaN s) = (0, 0)"

definition fp_gt :: "ieee \<Rightarrow> ieee \<Rightarrow> bool" where
  "fp_gt x y =
     (\<not> fp_is_nan x \<and> \<not> fp_is_nan y \<and>
      (fst (fp_rank y) < fst (fp_rank x) \<or>
       (fst (fp_rank y) = fst (fp_rank x) \<and> snd (fp_rank y) < snd (fp_rank x))))"

text \<open>
  \<open>atof(s)\<close> is \<open>strtod(s, NULL)\<close>: white space, an optional sign, then \<open>inf\<close> or \<open>nan\<close>
  in any letter case, a hexadecimal number behind \<open>0x\<close>, or a decimal number with an
  optional fraction and exponent. A text with no number in front converts to zero.
  The exact value is rounded to \<open>double\<close>.
\<close>

definition read_mantissa :: "(char \<Rightarrow> bool) \<Rightarrow> string \<Rightarrow> string \<times> string \<times> string" where
  "read_mantissa dig s =
     (case dropWhile dig s of
        c # cs \<Rightarrow>
          if c = CHR ''.'' then (takeWhile dig s, takeWhile dig cs, dropWhile dig cs)
          else (takeWhile dig s, [], c # cs)
      | [] \<Rightarrow> (takeWhile dig s, [], []))"

definition read_exponent :: "char \<Rightarrow> string \<Rightarrow> int" where
  "read_exponent m s =
     (case s of
        c # cs \<Rightarrow>
          if tolower c = m
          then (case read_sign cs of
                  (neg, r) \<Rightarrow>
                    let n = digits_val 10 0 (takeWhile isdigit r)
                    in if neg then - n else n)
          else 0
      | [] \<Rightarrow> 0)"

definition strtod_magnitude :: "string \<Rightarrow> rat option" where
  "strtod_magnitude s =
     (case read_mantissa isxdigit (drop 2 s) of
        (xi, xf, xr) \<Rightarrow>
          if map tolower (take 2 s) = ''0x'' \<and> xi @ xf \<noteq> []
          then Some (of_int (digits_val 16 0 (xi @ xf)) / 16 ^ length xf
                     * 2 powi read_exponent (CHR ''p'') xr)
          else (case read_mantissa isdigit s of
                  (di, df, dr) \<Rightarrow>
                    if di @ df = [] then None
                    else Some (of_int (digits_val 10 0 (di @ df)) / 10 ^ length df
                               * 10 powi read_exponent (CHR ''e'') dr)))"

definition atof :: "string \<Rightarrow> ieee" where
  "atof s =
     (case read_sign (dropWhile isspace s) of
        (neg, r) \<Rightarrow>
          if map tolower (take 3 r) = ''inf'' then (if neg then NegInf else PosInf)
          else if map tolower (take 3 r) = ''nan'' then NaN neg
          else (case strtod_magnitude r of
                  None \<Rightarrow> Finite 0
                | Some m \<Rightarrow>
                    if m = 0 then (if neg then NegZero else Finite 0)
                    else round64 (if neg then - m else m)))"

text \<open>
  \<open>printf("%.kf", v)\<close>: the exact value rounded to \<open>k\<close> decimals, ties to even (glibc
  rounds the exact binary value in the current rounding mode); the sign is that of
  the value, also when the digits are all zero, and of a NaN.
\<close>

definition show_fixed :: "nat \<Rightarrow> rat \<Rightarrow> string" where
  "show_fixed k x =
     (let n = round_even (x * 10 ^ k);
          fr = show_dec (n mod 10 ^ k)
      in show_dec (n div 10 ^ k) @
         (if k = 0 then [] else CHR ''.'' # replicate (k - length fr) (CHR ''0'') @ fr))"

fun printf_f :: "nat \<Rightarrow> ieee \<Rightarrow> string" where
  "printf_f k (Finite x) = (if x < 0 then CHR ''-'' # show_fixed k \<bar>x\<bar> else show_fixed k x)"
| "printf_f k NegZero = CHR ''-'' # show_fixed k 0"
| "printf_f k PosInf = ''inf''"
| "printf_f k NegInf = ''-inf''"
| "printf_f k (NaN s) = (if s then ''-nan'' else ''nan'')"

section \<open>The boats\<close>

text \<open>
  The program writes the enum \<open>locationType\<close> and the member of the union
  \<open>locationInfo\<close> together and reads the member that the enum names, so a boat's
  location is one value: the kind and what the union holds for it. \<open>length\<close> is called
  \<open>length_ft\<close> here. \<open>length\<close> and \<open>amountOwed\<close> are C floats, the slip and storage
  numbers C ints.
\<close>

datatype LocationType = SLIP | LAND | TRAILOR | STORAGE

datatype Location = Slip "32 word" | Land char | Trailor string | Storage "32 word"

fun locationType :: "Location \<Rightarrow> LocationType" where
  "locationType (Slip n) = SLIP"
| "locationType (Land c) = LAND"
| "locationType (Trailor t) = TRAILOR"
| "locationType (Storage n) = STORAGE"

record Boat =
  name :: string
  length_ft :: ieee
  location :: Location
  amountOwed :: ieee

definition MAX_BOATS :: nat where
  "MAX_BOATS = 120"

definition MAX_NAME_LENGTH :: nat where
  "MAX_NAME_LENGTH = 128"

definition SLIP_RATE :: ieee where
  "SLIP_RATE = round64 (25 / 2)"

definition LAND_RATE :: ieee where
  "LAND_RATE = round64 14"

definition TRAILOR_RATE :: ieee where
  "TRAILOR_RATE = round64 25"

definition STORAGE_RATE :: ieee where
  "STORAGE_RATE = round64 (56 / 5)"

text \<open>What the operations print besides their prompts.\<close>

datatype report =
    CouldNotOpen string
  | MaximumReached
  | InvalidFormat
  | InvalidLocationType
  | NoBoatWithThatName
  | MoreThanOwed ieee

fun report_text :: "report \<Rightarrow> string" where
  "report_text (CouldNotOpen filename) =
     ''Warning: Could not open file '' @ filename @ '' for reading.'' @ [newline]"
| "report_text MaximumReached = ''Error: Maximum number of boats reached.'' @ [newline, newline]"
| "report_text InvalidFormat = ''Error: Invalid boat data format.'' @ [newline, newline]"
| "report_text InvalidLocationType = ''Error: Invalid location type.'' @ [newline, newline]"
| "report_text NoBoatWithThatName = ''No boat with that name'' @ [newline, newline]"
| "report_text (MoreThanOwed owed) =
     ''That is more than the amount owed, $'' @ printf_f 2 owed @ [newline, newline]"

subsection \<open>Sorting by name\<close>

definition compareBoats :: "Boat \<Rightarrow> Boat \<Rightarrow> int" where
  "compareBoats a b = strcasecmp (name a) (name b)"

text \<open>
  \<open>qsort(boats, count, sizeof(Boat*), compareBoats)\<close>. ISO C fixes neither the algorithm
  nor the order of elements that compare equal; an insertion sort stands for it, and
  the theorems below use only that its result is ordered and holds the same boats.
\<close>

fun qsort_insert :: "Boat \<Rightarrow> Boat list \<Rightarrow> Boat list" where
  "qsort_insert b [] = [b]"
| "qsort_insert b (c # cs) =
     (if compareBoats b c \<le> 0 then b # c # cs else c # qsort_insert b cs)"

fun qsort :: "Boat list \<Rightarrow> Boat list" where
  "qsort [] = []"
| "qsort (b # bs) = qsort_insert b (qsort bs)"

subsection \<open>Decoding a line\<close>

text \<open>
  The body of the loop of \<open>loadBoatData\<close>, on the buffer without its newline: \<open>None\<close>
  where the C code frees the boat and continues. malloc is taken to succeed. The
  keyword is compared with \<open>strcmp\<close>.
\<close>

definition load_location :: "string \<Rightarrow> string \<Rightarrow> (Location \<times> string) option" where
  "load_location token rest =
     (if strcmp token ''slip'' = 0 then
        (case strtok_r rest of
           (None, r) \<Rightarrow> None
         | (Some t, r) \<Rightarrow> Some (Slip (atoi t), r))
      else if strcmp token ''land'' = 0 then
        (case strtok_r rest of
           (None, r) \<Rightarrow> None
         | (Some t, r) \<Rightarrow> (case t of [] \<Rightarrow> None | c # cs \<Rightarrow> Some (Land c, r)))
      else if strcmp token ''trailor'' = 0 then
        (case strtok_r rest of
           (None, r) \<Rightarrow> None
         | (Some t, r) \<Rightarrow> Some (Trailor (take 9 t), r))
      else if strcmp token ''storage'' = 0 then
        (case strtok_r rest of
           (None, r) \<Rightarrow> None
         | (Some t, r) \<Rightarrow> Some (Storage (atoi t), r))
      else None)"

definition load_line :: "string \<Rightarrow> Boat option" where
  "load_line buffer =
     (case strtok_r buffer of
        (None, r1) \<Rightarrow> None
      | (Some t1, r1) \<Rightarrow>
          (case strtok_r r1 of
             (None, r2) \<Rightarrow> None
           | (Some t2, r2) \<Rightarrow>
               (case strtok_r r2 of
                  (None, r3) \<Rightarrow> None
                | (Some t3, r3) \<Rightarrow>
                    (case load_location t3 r3 of
                       None \<Rightarrow> None
                     | Some (loc, r4) \<Rightarrow>
                         (case strtok_r r4 of
                            (None, r5) \<Rightarrow> None
                          | (Some t5, r5) \<Rightarrow>
                              Some \<lparr>name = take (MAX_NAME_LENGTH - 1) t1,
                                    length_ft = to_float (atof t2),
                                    location = loc,
                                    amountOwed = to_float (atof t5)\<rparr>)))))"

text \<open>
  The same steps in \<open>addBoat\<close>, where each failure prints its message and the keyword
  is compared with \<open>strcasecmp\<close>.
\<close>

definition add_location :: "string \<Rightarrow> string \<Rightarrow> report + (Location \<times> string)" where
  "add_location token rest =
     (if strcasecmp token ''slip'' = 0 then
        (case strtok_r rest of
           (None, r) \<Rightarrow> Inl InvalidFormat
         | (Some t, r) \<Rightarrow> Inr (Slip (atoi t), r))
      else if strcasecmp token ''land'' = 0 then
        (case strtok_r rest of
           (None, r) \<Rightarrow> Inl InvalidFormat
         | (Some t, r) \<Rightarrow> (case t of [] \<Rightarrow> Inl InvalidFormat | c # cs \<Rightarrow> Inr (Land c, r)))
      else if strcasecmp token ''trailor'' = 0 then
        (case strtok_r rest of
           (None, r) \<Rightarrow> Inl InvalidFormat
         | (Some t, r) \<Rightarrow> Inr (Trailor (take 9 t), r))
      else if strcasecmp token ''storage'' = 0 then
        (case strtok_r rest of
           (None, r) \<Rightarrow> Inl InvalidFormat
         | (Some t, r) \<Rightarrow> Inr (Storage (atoi t), r))
      else Inl InvalidLocationType)"

definition add_line :: "string \<Rightarrow> report + Boat" where
  "add_line buffer =
     (case strtok_r buffer of
        (None, r1) \<Rightarrow> Inl InvalidFormat
      | (Some t1, r1) \<Rightarrow>
          (case strtok_r r1 of
             (None, r2) \<Rightarrow> Inl InvalidFormat
           | (Some t2, r2) \<Rightarrow>
               (case strtok_r r2 of
                  (None, r3) \<Rightarrow> Inl InvalidFormat
                | (Some t3, r3) \<Rightarrow>
                    (case add_location t3 r3 of
                       Inl e \<Rightarrow> Inl e
                     | Inr (loc, r4) \<Rightarrow>
                         (case strtok_r r4 of
                            (None, r5) \<Rightarrow> Inl InvalidFormat
                          | (Some t5, r5) \<Rightarrow>
                              Inr \<lparr>name = take (MAX_NAME_LENGTH - 1) t1,
                                    length_ft = to_float (atof t2),
                                    location = loc,
                                    amountOwed = to_float (atof t5)\<rparr>)))))"

section \<open>The operations\<close>

text \<open>
  The array \<open>boats\<close> with \<open>boatCount\<close> is the list of its first \<open>boatCount\<close>
  boats; each entry points to a boat of its own, so the list holds the boats
  themselves.
\<close>

subsection \<open>loadBoatData and saveBoatData\<close>

lemma fgets_read_shorter:
  "0 < n \<Longrightarrow> s \<noteq> [] \<Longrightarrow> fgets_read n s = (l, r) \<Longrightarrow> length r < length s"
proof (induction n s arbitrary: l r rule: fgets_read.induct)
  case (1 n)
  then show ?case by simp
next
  case (2 n c s)
  show ?case
  proof (cases "c = newline")
    case True
    with 2 show ?thesis by auto
  next
    case False
    obtain l' r' where lr: "fgets_read (n - 1) s = (l', r')"
      by (cases "fgets_read (n - 1) s")
    then have "length r' \<le> length s"
    proof (cases "n - 1 = 0 \<or> s = []")
      case True
      with lr show ?thesis by (cases s) auto
    next
      case False
      with 2 lr \<open>c \<noteq> newline\<close> have "length r' < length s" by simp
      then show ?thesis by simp
    qed
    with 2 lr False show ?thesis by auto
  qed
qed

lemma fgets_shorter:
  "fgets n s = Some (l, r) \<Longrightarrow> 1 < n \<Longrightarrow> length r < length s"
  by (auto simp: fgets_def split: if_splits intro: fgets_read_shorter [of "n - 1"])

text \<open>
  The loop \<open>while (fgets(buffer, 256, file) != NULL && *boatCount < MAX_BOATS)\<close>, on the
  unread bytes of the file and the boats stored so far.
\<close>

function load_loop :: "string \<Rightarrow> Boat list \<Rightarrow> Boat list" where
  "load_loop file boats =
     (case fgets 256 file of
        None \<Rightarrow> boats
      | Some (buffer, file') \<Rightarrow>
          if length boats < MAX_BOATS
          then load_loop file'
                 (case load_line (strip_newline (cstr buffer)) of
                    None \<Rightarrow> boats
                  | Some b \<Rightarrow> boats @ [b])
          else boats)"
  by pat_completeness auto
termination
  by (relation "measure (\<lambda>(file, boats). length file)") (auto dest: fgets_shorter)

declare load_loop.simps [simp del]

text \<open>The same equation with projections, for evaluation.\<close>

lemma load_loop_code [code]:
  "load_loop file boats =
     (if fgets 256 file = None then boats
      else if length boats < MAX_BOATS
      then load_loop (snd (the (fgets 256 file)))
             (case load_line (strip_newline (cstr (fst (the (fgets 256 file))))) of
                None \<Rightarrow> boats
              | Some b \<Rightarrow> boats @ [b])
      else boats)"
  by (subst load_loop.simps) (auto split: option.splits)

text \<open>
  \<open>loadBoatData\<close> on the name of the file, on what fopen finds under it (\<open>None\<close>:
  the file cannot be opened) and on the boats of the caller, which stay as they are
  when the file cannot be opened.
\<close>

definition loadBoatData ::
  "string \<Rightarrow> string option \<Rightarrow> Boat list \<Rightarrow> Boat list \<times> report option" where
  "loadBoatData filename file boats =
     (case file of
        None \<Rightarrow> (boats, Some (CouldNotOpen filename))
      | Some content \<Rightarrow> (qsort (load_loop content []), None))"

fun locationTypeToString :: "LocationType \<Rightarrow> string" where
  "locationTypeToString SLIP = ''slip''"
| "locationTypeToString LAND = ''land''"
| "locationTypeToString TRAILOR = ''trailor''"
| "locationTypeToString STORAGE = ''storage''"

fun save_location :: "Location \<Rightarrow> string" where
  "save_location (Slip n) = printf_d n"
| "save_location (Land c) = [c]"
| "save_location (Trailor t) = cstr t"
| "save_location (Storage n) = printf_d n"

text \<open>
  The line that \<open>saveBoatData\<close> writes for one boat, without its newline; the
  conversion \<open>%s\<close> prints a string up to its NUL.
\<close>

definition save_line :: "Boat \<Rightarrow> string" where
  "save_line boat =
     cstr (name boat) @ '','' @ printf_f 0 (length_ft boat) @ '','' @
     locationTypeToString (locationType (location boat)) @ '','' @
     save_location (location boat) @ '','' @ printf_f 2 (amountOwed boat)"

definition saveBoatData :: "Boat list \<Rightarrow> string" where
  "saveBoatData boats = concat (map (\<lambda>boat. save_line boat @ [newline]) boats)"

subsection \<open>addBoat, findBoatByName, removeBoat\<close>

definition addBoat :: "Boat list \<Rightarrow> string \<Rightarrow> Boat list \<times> report option" where
  "addBoat boats boatData =
     (if MAX_BOATS \<le> length boats then (boats, Some MaximumReached)
      else (case add_line (take 255 boatData) of
              Inl e \<Rightarrow> (boats, Some e)
            | Inr newBoat \<Rightarrow> (qsort (boats @ [newBoat]), None)))"

fun findBoatByName :: "Boat list \<Rightarrow> string \<Rightarrow> nat option" where
  "findBoatByName [] nm = None"
| "findBoatByName (b # bs) nm =
     (if strcasecmp (name b) nm = 0 then Some 0
      else map_option Suc (findBoatByName bs nm))"

text \<open>The loop \<open>for (i = index; i < *boatCount - 1; i++) boats[i] = boats[i + 1]\<close>.\<close>

function shift_boats :: "nat \<Rightarrow> Boat list \<Rightarrow> Boat list" where
  "shift_boats i boats =
     (if i + 1 < length boats then shift_boats (i + 1) (boats[i := boats ! (i + 1)])
      else boats)"
  by pat_completeness auto
termination
  by (relation "measure (\<lambda>(i, boats). length boats - i)") auto

declare shift_boats.simps [simp del]

text \<open>
  \<open>removeBoat\<close> and \<open>acceptPayment\<close> read the name (and the amount) from the standard
  input, whose unread bytes they take and return.
\<close>

definition removeBoat :: "Boat list \<Rightarrow> string \<Rightarrow> Boat list \<times> string \<times> report option" where
  "removeBoat boats input =
     (case fgets MAX_NAME_LENGTH input of
        None \<Rightarrow> (boats, input, None)
      | Some (buffer, input') \<Rightarrow>
          (case findBoatByName boats (strip_newline (cstr buffer)) of
             None \<Rightarrow> (boats, input', Some NoBoatWithThatName)
           | Some index \<Rightarrow>
               (take (length boats - 1) (shift_boats index boats), input', None)))"

subsection \<open>acceptPayment and updateMonthlyCharges\<close>

definition acceptPayment :: "Boat list \<Rightarrow> string \<Rightarrow> Boat list \<times> string \<times> report option" where
  "acceptPayment boats input =
     (case fgets MAX_NAME_LENGTH input of
        None \<Rightarrow> (boats, input, None)
      | Some (buffer, input1) \<Rightarrow>
          (case findBoatByName boats (strip_newline (cstr buffer)) of
             None \<Rightarrow> (boats, input1, Some NoBoatWithThatName)
           | Some index \<Rightarrow>
               (case fgets 50 input1 of
                  None \<Rightarrow> (boats, input1, None)
                | Some (buffer2, input2) \<Rightarrow>
                    let payment = to_float (atof (cstr buffer2));
                        owed = amountOwed (boats ! index)
                    in if fp_gt payment owed
                       then (boats, input2, Some (MoreThanOwed owed))
                       else (boats[index := (boats ! index)
                                     \<lparr>amountOwed := fp_sub round32 owed payment\<rparr>],
                             input2, None))))"

text \<open>
  The charge of a month: \<open>length * RATE\<close> is a product of doubles, stored in the float
  \<open>monthlyCharge\<close>.
\<close>

definition monthlyCharge :: "Boat \<Rightarrow> ieee" where
  "monthlyCharge boat =
     to_float
       (case locationType (location boat) of
          SLIP \<Rightarrow> fp_mul round64 (length_ft boat) SLIP_RATE
        | LAND \<Rightarrow> fp_mul round64 (length_ft boat) LAND_RATE
        | TRAILOR \<Rightarrow> fp_mul round64 (length_ft boat) TRAILOR_RATE
        | STORAGE \<Rightarrow> fp_mul round64 (length_ft boat) STORAGE_RATE)"

definition charge_boat :: "Boat \<Rightarrow> Boat" where
  "charge_boat boat = boat\<lparr>amountOwed := fp_add round32 (amountOwed boat) (monthlyCharge boat)\<rparr>"

definition updateMonthlyCharges :: "Boat list \<Rightarrow> Boat list" where
  "updateMonthlyCharges boats = map charge_boat boats"

subsection \<open>The menu loop of main\<close>

text \<open>
  The state of the loop: the boats, the unread bytes of the standard input and
  \<open>choice\<close>, which holds nothing before the first command is read.
\<close>

record session =
  boats :: "Boat list"
  stdin :: string
  choice :: "char option"

text \<open>
  One pass through the body of the do-while loop. At the end of the input fgets
  returns NULL and nothing changes. What the pass prints is not part of the state.
\<close>

definition menu_step :: "session \<Rightarrow> session" where
  "menu_step s =
     (case fgets 256 (stdin s) of
        None \<Rightarrow> s
      | Some (inputBuffer, input) \<Rightarrow>
          let c = toupper (case inputBuffer of [] \<Rightarrow> NUL | x # xs \<Rightarrow> x);
              s1 = s\<lparr>stdin := input, choice := Some c\<rparr>
          in if c = CHR ''A'' then
               (case fgets 256 input of
                  None \<Rightarrow> s1
                | Some (line, input') \<Rightarrow>
                    s1\<lparr>boats := fst (addBoat (boats s) (strip_newline (cstr line))),
                       stdin := input'\<rparr>)
             else if c = CHR ''R'' then
               (case removeBoat (boats s) input of
                  (bs, input', r) \<Rightarrow> s1\<lparr>boats := bs, stdin := input'\<rparr>)
             else if c = CHR ''P'' then
               (case acceptPayment (boats s) input of
                  (bs, input', r) \<Rightarrow> s1\<lparr>boats := bs, stdin := input'\<rparr>)
             else if c = CHR ''M'' then s1\<lparr>boats := updateMonthlyCharges (boats s)\<rparr>
             else s1)"

text \<open>
  The states at the head of the loop, for the name of the data file, what it holds
  and an input: the loop starts on the loaded boats and goes on until the choice is
  X.
\<close>

inductive reachable :: "string \<Rightarrow> string option \<Rightarrow> string \<Rightarrow> session \<Rightarrow> bool"
  for filename :: string and datafile :: "string option" and typed :: string where
  start: "reachable filename datafile typed
            \<lparr>boats = fst (loadBoatData filename datafile []), stdin = typed, choice = None\<rparr>"
| pass: "reachable filename datafile typed s \<Longrightarrow> choice s \<noteq> Some (CHR ''X'') \<Longrightarrow>
         reachable filename datafile typed (menu_step s)"

section \<open>Notions of the specification and example boats\<close>

text \<open>Two names are the same without regard to letter case.\<close>

definition ci_equal :: "string \<Rightarrow> string \<Rightarrow> bool" where
  "ci_equal a b = (map tolower (cstr a) = map tolower (cstr b))"

text \<open>Two boats for the examples.\<close>

definition alice :: Boat where
  "alice = \<lparr>name = ''Alice'', length_ft = Finite 20, location = Slip 5, amountOwed = Finite 100\<rparr>"

definition bob :: Boat where
  "bob = \<lparr>name = ''Bob'', length_ft = Finite 15, location = Land (CHR ''B''), amountOwed = Finite 50\<rparr>"

text \<open>
  The boats are in the order of \<open>compareBoats\<close>: each name is at most every later one
  under \<open>strcasecmp\<close>.
\<close>

definition sorted_by_name :: "Boat list \<Rightarrow> bool" where
  "sorted_by_name bs = sorted_wrt (\<lambda>a b. strcasecmp a b \<le> 0) (map name bs)"

text \<open>What every pass through the menu loop keeps.\<close>

definition loop_invariant :: "session \<Rightarrow> bool" where
  "loop_invariant s = (sorted_by_name (boats s) \<and> length (boats s) \<le> MAX_BOATS)"

text \<open>A data file of two lines and an input that adds a boat.\<close>

definition two_lines :: string where
  "two_lines = ''Bob,15,land,B,50.00'' @ [newline] @ ''Alice,20,slip,5,100.00'' @ [newline]"

definition typed_add :: string where
  "typed_add = ''a'' @ [newline] @ ''Carol,16,trailor,TX1234,0.00'' @ [newline]"

text \<open>
  The fields of a line are the texts between its commas; its tokens are the fields
  that are not empty, which is what the calls of \<open>strtok_r\<close> return one by one.
\<close>

fun fields :: "string \<Rightarrow> string list" where
  "fields [] = [[]]"
| "fields (c # cs) =
     (if c = CHR '','' then [] # fields cs
      else (case fields cs of f # fs \<Rightarrow> (c # f) # fs | [] \<Rightarrow> [[c]]))"

definition tokens :: "string \<Rightarrow> string list" where
  "tokens s = filter (\<lambda>f. f \<noteq> []) (fields s)"

text \<open>
  What both decoders build from the tokens: the location from the keyword and the
  fourth token, under the comparison \<open>cmp\<close> of the decoder, and the boat.
\<close>

definition location_of :: "(string \<Rightarrow> string \<Rightarrow> int) \<Rightarrow> string \<Rightarrow> string \<Rightarrow> Location option" where
  "location_of cmp kw v =
     (if cmp kw ''slip'' = 0 then Some (Slip (atoi v))
      else if cmp kw ''land'' = 0 then (case v of [] \<Rightarrow> None | c # cs \<Rightarrow> Some (Land c))
      else if cmp kw ''trailor'' = 0 then Some (Trailor (take 9 v))
      else if cmp kw ''storage'' = 0 then Some (Storage (atoi v))
      else None)"

definition is_keyword :: "(string \<Rightarrow> string \<Rightarrow> int) \<Rightarrow> string \<Rightarrow> bool" where
  "is_keyword cmp kw =
     (cmp kw ''slip'' = 0 \<or> cmp kw ''land'' = 0 \<or> cmp kw ''trailor'' = 0 \<or> cmp kw ''storage'' = 0)"

definition boat_of :: "string \<Rightarrow> string \<Rightarrow> Location \<Rightarrow> string \<Rightarrow> Boat" where
  "boat_of t1 t2 loc t5 =
     \<lparr>name = take (MAX_NAME_LENGTH - 1) t1, length_ft = to_float (atof t2),
      location = loc, amountOwed = to_float (atof t5)\<rparr>"

definition location_keywords :: "string set" where
  "location_keywords = {''slip'', ''land'', ''trailor'', ''storage''}"

text \<open>
  A line of a file that fits the buffer of \<open>loadBoatData\<close> and holds neither a newline
  nor a NUL.
\<close>

definition plain_line :: "string \<Rightarrow> bool" where
  "plain_line l = (length l < 255 \<and> newline \<notin> set l \<and> NUL \<notin> set l)"


text \<open>
  The rounded value of a number before the range check of \<open>fp_round\<close>: the nearest
  multiple of the spacing at the number.
\<close>

definition fp_grid :: "nat \<Rightarrow> int \<Rightarrow> rat \<Rightarrow> rat" where
  "fp_grid p emin x =
     of_int (round_even (x / 2 powi (max (ilog2 \<bar>x\<bar>) emin - int p + 1))) *
       2 powi (max (ilog2 \<bar>x\<bar>) emin - int p + 1)"

text \<open>Boat \<open>i\<close> is the first whose name is \<open>nm\<close> up to letter case.\<close>

definition first_match :: "Boat list \<Rightarrow> string \<Rightarrow> nat \<Rightarrow> bool" where
  "first_match bs nm i =
     (i < length bs \<and> ci_equal (name (bs ! i)) nm \<and>
      (\<forall>j < i. \<not> ci_equal (name (bs ! j)) nm))"

text \<open>Inputs of acceptPayment: the name of a boat and an amount.\<close>

definition pay_exact :: string where
  "pay_exact = ''ALICE'' @ [newline] @ ''100.00'' @ [newline]"

definition pay_too_much :: string where
  "pay_too_much = ''ALICE'' @ [newline] @ ''100.01'' @ [newline]"

definition pay_negative :: string where
  "pay_negative = ''ALICE'' @ [newline] @ ''-0.01'' @ [newline]"

text \<open>The rate of a kind of location, and a boat of a given length at a given location.\<close>

fun rate :: "LocationType \<Rightarrow> ieee" where
  "rate SLIP = SLIP_RATE"
| "rate LAND = LAND_RATE"
| "rate TRAILOR = TRAILOR_RATE"
| "rate STORAGE = STORAGE_RATE"

definition boat_at :: "Location \<Rightarrow> rat \<Rightarrow> ieee \<Rightarrow> Boat" where
  "boat_at loc len owed =
     \<lparr>name = ''Horizon'', length_ft = Finite len, location = loc, amountOwed = owed\<rparr>"


definition pay_partial :: string where
  "pay_partial = ''ALICE'' @ [newline] @ ''40'' @ [newline]"

definition pay_inf :: string where
  "pay_inf = ''ALICE'' @ [newline] @ ''inf'' @ [newline]"

definition pay_minus_inf :: string where
  "pay_minus_inf = ''ALICE'' @ [newline] @ ''-inf'' @ [newline]"

definition pay_minus_40 :: string where
  "pay_minus_40 = ''ALICE'' @ [newline] @ ''-40'' @ [newline]"

text \<open>The comparison \<open>x >= y\<close> of C: false when either side is a NaN.\<close>

definition fp_ge :: "ieee \<Rightarrow> ieee \<Rightarrow> bool" where
  "fp_ge x y = (\<not> fp_is_nan x \<and> \<not> fp_is_nan y \<and> \<not> fp_gt y x)"

text \<open>A value that a \<open>float\<close> can hold: rounding to single precision keeps it.\<close>

definition is_float :: "ieee \<Rightarrow> bool" where
  "is_float v = (case v of Finite a \<Rightarrow> round32 a = Finite a | _ \<Rightarrow> True)"

section \<open>Facts about the library functions\<close>

lemma tolower_NUL_iff: "tolower c = NUL \<longleftrightarrow> c = NUL"
proof
  assume h: "tolower c = NUL"
  show "c = NUL"
  proof (cases "isupper c")
    case True
    have lt: "(of_char c :: nat) < 256"
      by (metis of_char_mod_256 mod_less_divisor zero_less_numeral)
    from True have "65 \<le> (of_char c :: nat)" by (simp add: isupper_def)
    with True h lt have "char_of ((of_char c :: nat) + 32) = CHR 0x00"
      by (simp add: tolower_def NUL_def)
    then have "of_char (char_of ((of_char c :: nat) + 32)) = (of_char (CHR 0x00) :: nat)" by simp
    with True lt show ?thesis by (simp add: isupper_def)
  next
    case False
    with h show ?thesis by (simp add: tolower_def)
  qed
next
  assume "c = NUL" then show "tolower c = NUL" by (simp add: tolower_def isupper_def NUL_def)
qed

lemma of_char_pos_iff: "0 < (of_char c :: nat) \<longleftrightarrow> c \<noteq> NUL"
proof -
  have "(of_char c :: nat) = of_char (CHR 0x00) \<longleftrightarrow> c = CHR 0x00"
    by (rule of_char_eq_iff)
  then show ?thesis by (auto simp: NUL_def)
qed

lemma strcasecmp_eq_0_iff:
  "strcasecmp a b = 0 \<longleftrightarrow> map tolower (cstr a) = map tolower (cstr b)"
proof (induction a b rule: strcasecmp.induct)
  case 1
  then show ?case by (simp add: cstr_def)
next
  case (2 y ys)
  show ?case using tolower_NUL_iff [of y] of_char_pos_iff [of "tolower y"] by (auto simp: cstr_def)
next
  case (3 x xs)
  show ?case using tolower_NUL_iff [of x] of_char_pos_iff [of "tolower x"] by (auto simp: cstr_def)
next
  case (4 x xs y ys)
  show ?case using 4 tolower_NUL_iff [of x] tolower_NUL_iff [of y]
    by (auto simp: cstr_def)
qed

lemma findBoatByName_None_iff:
  "findBoatByName bs nm = None \<longleftrightarrow> (\<forall>b \<in> set bs. strcasecmp (name b) nm \<noteq> 0)"
  by (induction bs) auto

lemma findBoatByName_Some_iff:
  "findBoatByName bs nm = Some i \<longleftrightarrow>
     i < length bs \<and> strcasecmp (name (bs ! i)) nm = 0 \<and>
     (\<forall>j < i. strcasecmp (name (bs ! j)) nm \<noteq> 0)"
proof (induction bs arbitrary: i)
  case Nil
  then show ?case by simp
next
  case (Cons b bs)
  show ?case
  proof (cases "strcasecmp (name b) nm = 0")
    case True
    then show ?thesis by (cases i) auto
  next
    case False
    show ?thesis
    proof (cases i)
      case 0
      with False show ?thesis by auto
    next
      case (Suc k)
      have "(\<forall>j<Suc k. strcasecmp (name ((b # bs) ! j)) nm \<noteq> 0) \<longleftrightarrow>
            (\<forall>j<k. strcasecmp (name (bs ! j)) nm \<noteq> 0)"
        using False by (auto simp: less_Suc_eq_0_disj)
      with False Suc Cons.IH [of k] show ?thesis by auto
    qed
  qed
qed

lemma shift_boats_eq:
  "i < length bs \<Longrightarrow> shift_boats i bs = take i bs @ drop (Suc i) bs @ [last bs]"
proof (induction i bs rule: shift_boats.induct)
  case (1 i boats)
  show ?case
  proof (cases "i + 1 < length boats")
    case True
    let ?bs = "boats[i := boats ! (i + 1)]"
    have "shift_boats i boats = shift_boats (i + 1) ?bs"
      using True by (subst shift_boats.simps) simp
    also have "\<dots> = take (i + 1) ?bs @ drop (Suc (i + 1)) ?bs @ [last ?bs]"
      using True 1 by simp
    also have "take (i + 1) ?bs = take i boats @ [boats ! (i + 1)]"
      using True by (simp add: take_Suc_conv_app_nth)
    also have "drop (Suc (i + 1)) ?bs = drop (Suc (i + 1)) boats" by simp
    also have "last ?bs = last boats"
      using True by (cases "boats = []") (simp_all add: last_list_update)
    also have "(take i boats @ [boats ! (i + 1)]) @ drop (Suc (i + 1)) boats @ [last boats]
             = take i boats @ drop (Suc i) boats @ [last boats]"
      using True by (simp add: Cons_nth_drop_Suc)
    finally show ?thesis .
  next
    case False
    with 1 have len: "length boats = Suc i" by simp
    then have "boats \<noteq> []" by auto
    have "shift_boats i boats = boats"
      using False by (subst shift_boats.simps) simp
    also have "\<dots> = butlast boats @ [last boats]" using \<open>boats \<noteq> []\<close> by simp
    also have "butlast boats = take i boats" using len by (simp add: butlast_conv_take)
    finally show ?thesis using len by simp
  qed
qed

lemma shift_boats_take:
  "i < length bs \<Longrightarrow> take (length bs - 1) (shift_boats i bs) = take i bs @ drop (Suc i) bs"
  by (simp add: shift_boats_eq)

lemma strcasecmp_ci_equal: "strcasecmp a b = 0 \<longleftrightarrow> ci_equal a b"
  by (simp add: strcasecmp_eq_0_iff ci_equal_def)

section \<open>removeBoat\<close>

text \<open>
  Claim C7. removeBoat looks the typed name up without regard to letter case and takes
  the first boat that matches: when no boat matches it prints "No boat with that name"
  and the boats stay as they are; when boat \<open>i\<close> is the first match, the result is the
  boats before \<open>i\<close> followed by the boats behind \<open>i\<close>, in their order.
\<close>

theorem removeBoat_first_match:
  assumes rd: "fgets MAX_NAME_LENGTH typed = Some (buffer, rest)"
  shows "((\<forall>b \<in> set bs. \<not> ci_equal (name b) (strip_newline (cstr buffer))) \<longrightarrow>
            removeBoat bs typed = (bs, rest, Some NoBoatWithThatName)) \<and>
         (i < length bs \<and>
            ci_equal (name (bs ! i)) (strip_newline (cstr buffer)) \<and>
            (\<forall>j < i. \<not> ci_equal (name (bs ! j)) (strip_newline (cstr buffer))) \<longrightarrow>
            removeBoat bs typed = (take i bs @ drop (Suc i) bs, rest, None))"
proof (intro conjI impI)
  assume "\<forall>b \<in> set bs. \<not> ci_equal (name b) (strip_newline (cstr buffer))"
  then have "findBoatByName bs (strip_newline (cstr buffer)) = None"
    by (simp add: findBoatByName_None_iff strcasecmp_ci_equal)
  with rd show "removeBoat bs typed = (bs, rest, Some NoBoatWithThatName)"
    by (simp add: removeBoat_def)
next
  assume m: "i < length bs \<and>
            ci_equal (name (bs ! i)) (strip_newline (cstr buffer)) \<and>
            (\<forall>j < i. \<not> ci_equal (name (bs ! j)) (strip_newline (cstr buffer)))"
  then have i: "i < length bs" by simp
  from m have "findBoatByName bs (strip_newline (cstr buffer)) = Some i"
    by (simp add: findBoatByName_Some_iff strcasecmp_ci_equal)
  with rd i shift_boats_take [of i bs]
  show "removeBoat bs typed = (take i bs @ drop (Suc i) bs, rest, None)"
    by (simp add: removeBoat_def)
qed

theorem removeBoat_first_match_witness:
  "fgets MAX_NAME_LENGTH (''BOB'' @ [newline]) = Some (''BOB'' @ [newline], []) \<and>
   removeBoat [alice, bob, bob\<lparr>amountOwed := Finite 7\<rparr>] (''BOB'' @ [newline])
     = ([alice, bob\<lparr>amountOwed := Finite 7\<rparr>], [], None) \<and>
   removeBoat [alice] (''BOB'' @ [newline]) = ([alice], [], Some NoBoatWithThatName)"
proof -
  have rd: "fgets MAX_NAME_LENGTH (''BOB'' @ [newline]) = Some (''BOB'' @ [newline], [])"
    by code_simp
  have m1: "ci_equal (name ([alice, bob, bob\<lparr>amountOwed := Finite 7\<rparr>] ! 1))
             (strip_newline (cstr (''BOB'' @ [newline])))"
    by code_simp
  have m2: "\<not> ci_equal (name ([alice, bob, bob\<lparr>amountOwed := Finite 7\<rparr>] ! 0))
             (strip_newline (cstr (''BOB'' @ [newline])))"
    by code_simp
  from m1 m2
  have m: "ci_equal (name ([alice, bob, bob\<lparr>amountOwed := Finite 7\<rparr>] ! 1))
             (strip_newline (cstr (''BOB'' @ [newline]))) \<and>
           (\<forall>j < 1. \<not> ci_equal (name ([alice, bob, bob\<lparr>amountOwed := Finite 7\<rparr>] ! j))
             (strip_newline (cstr (''BOB'' @ [newline]))))"
    by simp
  have "\<not> ci_equal (name alice) (strip_newline (cstr (''BOB'' @ [newline])))"
    by code_simp
  then have n: "\<forall>b \<in> set [alice]. \<not> ci_equal (name b) (strip_newline (cstr (''BOB'' @ [newline])))"
    by simp
  from removeBoat_first_match [OF rd, of "[alice, bob, bob\<lparr>amountOwed := Finite 7\<rparr>]" 1] m
  have a: "removeBoat [alice, bob, bob\<lparr>amountOwed := Finite 7\<rparr>] (''BOB'' @ [newline])
     = ([alice, bob\<lparr>amountOwed := Finite 7\<rparr>], [], None)"
    by simp
  from removeBoat_first_match [OF rd, of "[alice]"] n
  have b: "removeBoat [alice] (''BOB'' @ [newline]) = ([alice], [], Some NoBoatWithThatName)"
    by simp
  from rd a b show ?thesis by simp
qed

section \<open>The order of the boats and their number\<close>

lemma strcasecmp_sym: "strcasecmp b a = - strcasecmp a b"
  by (induction a b rule: strcasecmp.induct) auto

lemma of_char_tolower_pos: "c \<noteq> NUL \<Longrightarrow> 0 < (of_char (tolower c) :: nat)"
  using of_char_pos_iff [of "tolower c"] tolower_NUL_iff [of c] by simp

lemma of_char_tolower_inj:
  "(of_char (tolower x) :: nat) = of_char (tolower y) \<longleftrightarrow> tolower x = tolower y"
  by (rule of_char_eq_iff)

lemma of_char_NUL: "(of_char NUL :: nat) = 0"
  by (simp add: NUL_def)

lemma strcasecmp_trans:
  "strcasecmp a b \<le> 0 \<Longrightarrow> strcasecmp b c \<le> 0 \<Longrightarrow> strcasecmp a c \<le> 0"
proof (induction a arbitrary: b c)
  case Nil
  then show ?case by (cases c) auto
next
  case (Cons x a)
  show ?case
  proof (cases b)
    case Nil
    with Cons.prems have x0: "x = NUL"
      using of_char_tolower_pos [of x] by auto
    then have tx: "tolower x = NUL" by (simp add: tolower_NUL_iff)
    show ?thesis
    proof (cases c)
      case Nil
      with tx show ?thesis by (simp add: of_char_NUL)
    next
      case (Cons z c')
      with tx show ?thesis using of_char_pos_iff [of "tolower z"] by (auto simp: of_char_NUL)
    qed
  next
    case b: (Cons y b')
    show ?thesis
    proof (cases c)
      case Nil
      with b Cons.prems have y0: "tolower y = NUL"
        using of_char_pos_iff [of "tolower y"] by auto
      with b Cons.prems have "tolower x = NUL"
        using of_char_pos_iff [of "tolower x"] by (auto simp: of_char_NUL split: if_splits)
      with Nil show ?thesis by (simp add: of_char_NUL)
    next
      case c: (Cons z c')
      from Cons.prems b c Cons.IH [of b' c'] show ?thesis
        using of_char_tolower_inj [of x y] of_char_tolower_inj [of y z] of_char_tolower_inj [of x z]
        by (auto split: if_splits)
    qed
  qed
qed

lemma sorted_by_name_Cons:
  "sorted_by_name (b # bs) \<longleftrightarrow> (\<forall>c \<in> set bs. compareBoats b c \<le> 0) \<and> sorted_by_name bs"
  by (auto simp: sorted_by_name_def compareBoats_def)

lemma set_qsort_insert: "set (qsort_insert b bs) = insert b (set bs)"
  by (induction bs) auto

lemma mset_qsort_insert: "mset (qsort_insert b bs) = add_mset b (mset bs)"
  by (induction bs) auto

lemma mset_qsort: "mset (qsort bs) = mset bs"
  by (induction bs) (auto simp: mset_qsort_insert)

lemma length_qsort: "length (qsort bs) = length bs"
  using mset_qsort [of bs] by (metis size_mset)

lemma sorted_qsort_insert:
  "sorted_by_name bs \<Longrightarrow> sorted_by_name (qsort_insert b bs)"
proof (induction bs)
  case Nil
  then show ?case by (simp add: sorted_by_name_def)
next
  case (Cons c cs)
  show ?case
  proof (cases "compareBoats b c \<le> 0")
    case True
    have "\<forall>d \<in> set cs. compareBoats b d \<le> 0"
    proof
      fix d assume "d \<in> set cs"
      with Cons.prems have "compareBoats c d \<le> 0" by (simp add: sorted_by_name_Cons)
      with True show "compareBoats b d \<le> 0"
        unfolding compareBoats_def by (rule strcasecmp_trans)
    qed
    with True Cons.prems show ?thesis by (simp add: sorted_by_name_Cons)
  next
    case False
    then have cb: "compareBoats c b \<le> 0"
      using strcasecmp_sym [of "name b" "name c"] by (simp add: compareBoats_def)
    from Cons have "sorted_by_name (qsort_insert b cs)" by (simp add: sorted_by_name_Cons)
    with False cb Cons.prems show ?thesis
      by (auto simp: sorted_by_name_Cons set_qsort_insert)
  qed
qed

lemma sorted_qsort: "sorted_by_name (qsort bs)"
proof (induction bs)
  case Nil
  show ?case by (simp add: sorted_by_name_def)
next
  case (Cons b bs)
  then show ?case by (simp add: sorted_qsort_insert)
qed


lemma length_load_loop:
  "length bs \<le> MAX_BOATS \<Longrightarrow> length (load_loop content bs) \<le> MAX_BOATS"
proof (induction content bs rule: load_loop.induct)
  case (1 content bs)
  show ?case
  proof (cases "fgets 256 content")
    case None
    with 1 show ?thesis by (subst load_loop.simps) simp
  next
    case (Some p)
    obtain buffer rest where p: "p = (buffer, rest)" by (cases p)
    show ?thesis
    proof (cases "length bs < MAX_BOATS")
      case True
      let ?bs' = "case load_line (strip_newline (cstr buffer)) of None \<Rightarrow> bs | Some b \<Rightarrow> bs @ [b]"
      have "length ?bs' \<le> MAX_BOATS" using True by (simp split: option.splits)
      with 1 Some p True have "length (load_loop rest ?bs') \<le> MAX_BOATS" by simp
      with Some p True show ?thesis by (subst load_loop.simps) simp
    next
      case False
      with 1 Some p show ?thesis by (subst load_loop.simps) simp
    qed
  qed
qed

lemma length_loadBoatData:
  "length bs \<le> MAX_BOATS \<Longrightarrow> length (fst (loadBoatData fn f bs)) \<le> MAX_BOATS"
  by (cases f) (simp_all add: loadBoatData_def length_qsort length_load_loop)

lemma sorted_loadBoatData:
  "sorted_by_name bs \<Longrightarrow> sorted_by_name (fst (loadBoatData fn f bs))"
  by (cases f) (simp_all add: loadBoatData_def sorted_qsort)

lemma addBoat_cases:
  "addBoat bs d = (bs, Some MaximumReached) \<and> MAX_BOATS \<le> length bs \<or>
   (\<exists>e. addBoat bs d = (bs, Some e) \<and> add_line (take 255 d) = Inl e \<and> length bs < MAX_BOATS) \<or>
   (\<exists>b. addBoat bs d = (qsort (bs @ [b]), None) \<and> add_line (take 255 d) = Inr b \<and>
        length bs < MAX_BOATS)"
  by (cases "add_line (take 255 d)") (auto simp: addBoat_def)

lemma length_addBoat:
  "length bs \<le> MAX_BOATS \<Longrightarrow> length (fst (addBoat bs d)) \<le> MAX_BOATS"
  using addBoat_cases [of bs d] by (auto simp: length_qsort)

lemma sorted_addBoat:
  "sorted_by_name bs \<Longrightarrow> sorted_by_name (fst (addBoat bs d))"
  using addBoat_cases [of bs d] by (auto simp: sorted_qsort)

lemma sorted_wrt_delete_nth:
  assumes "sorted_wrt P xs"
  shows "sorted_wrt P (take i xs @ drop (Suc i) xs)"
proof -
  from assms have "sorted_wrt P (take i xs @ drop i xs)" by simp
  then have cross: "\<forall>x \<in> set (take i xs). \<forall>y \<in> set (drop i xs). P x y"
    by (simp only: sorted_wrt_append) simp
  have "set (drop (Suc i) xs) \<subseteq> set (drop i xs)"
    by (rule set_drop_subset_set_drop) simp
  with cross assms show ?thesis
    by (auto simp: sorted_wrt_append sorted_wrt_take sorted_wrt_drop)
qed

lemma removeBoat_cases:
  "fst (removeBoat bs t) = bs \<or>
   (\<exists>i < length bs. fst (removeBoat bs t) = take i bs @ drop (Suc i) bs)"
proof (cases "fgets MAX_NAME_LENGTH t")
  case None
  then show ?thesis by (simp add: removeBoat_def)
next
  case (Some p)
  obtain buffer rest where p: "p = (buffer, rest)" by (cases p)
  show ?thesis
  proof (cases "findBoatByName bs (strip_newline (cstr buffer))")
    case None
    with Some p show ?thesis by (simp add: removeBoat_def)
  next
    case (Some i)
    then have "i < length bs" by (simp add: findBoatByName_Some_iff)
    with Some \<open>fgets MAX_NAME_LENGTH t = Some p\<close> p shift_boats_take [of i bs]
    show ?thesis by (auto simp: removeBoat_def)
  qed
qed

lemma length_removeBoat: "length (fst (removeBoat bs t)) \<le> length bs"
  using removeBoat_cases [of bs t] by auto

lemma sorted_removeBoat:
  "sorted_by_name bs \<Longrightarrow> sorted_by_name (fst (removeBoat bs t))"
  using removeBoat_cases [of bs t]
  by (auto simp: sorted_by_name_def take_map [symmetric] drop_map [symmetric]
        simp del: take_map drop_map intro: sorted_wrt_delete_nth)

lemma names_update_owed:
  "map name (bs[i := (bs ! i)\<lparr>amountOwed := v\<rparr>]) = map name bs"
  by (simp add: map_update flip: nth_map) (metis list_update_id map_update)

lemma names_acceptPayment: "map name (fst (acceptPayment bs t)) = map name bs"
  by (auto simp: acceptPayment_def Let_def names_update_owed simp del: map_update
        split: option.splits prod.splits)

lemma names_updateMonthlyCharges: "map name (updateMonthlyCharges bs) = map name bs"
  by (simp add: updateMonthlyCharges_def charge_boat_def)

lemma length_of_names: "map name bs' = map name bs \<Longrightarrow> length bs' = length bs"
  by (metis length_map)

lemma loop_invariant_names:
  "loop_invariant s \<Longrightarrow> map name bs = map name (boats s) \<Longrightarrow> loop_invariant (s\<lparr>boats := bs, stdin := t, choice := c\<rparr>)"
  using length_of_names [of bs "boats s"] by (simp add: loop_invariant_def sorted_by_name_def)

lemma menu_step_invariant:
  assumes "loop_invariant s"
  shows "loop_invariant (menu_step s)"
proof (cases "fgets 256 (stdin s)")
  case None
  with assms show ?thesis by (simp add: menu_step_def)
next
  case (Some p)
  obtain inputBuffer rest where p: "p = (inputBuffer, rest)" by (cases p)
  define c where "c = toupper (case inputBuffer of [] \<Rightarrow> NUL | x # xs \<Rightarrow> x)"
  from assms have srt: "sorted_by_name (boats s)" and len: "length (boats s) \<le> MAX_BOATS"
    by (simp_all add: loop_invariant_def)
  consider (A) "c = CHR ''A''" | (R) "c = CHR ''R''" | (P) "c = CHR ''P''" | (M) "c = CHR ''M''"
    | (other) "c \<noteq> CHR ''A''" "c \<noteq> CHR ''R''" "c \<noteq> CHR ''P''" "c \<noteq> CHR ''M''"
    by blast
  then show ?thesis
  proof cases
    case A
    show ?thesis
    proof (cases "fgets 256 rest")
      case None
      with Some p A assms show ?thesis
        by (simp add: menu_step_def c_def [symmetric] loop_invariant_def)
    next
      case (Some q)
      obtain line rest' where q: "q = (line, rest')" by (cases q)
      from Some q \<open>fgets 256 (stdin s) = Some p\<close> p A
        sorted_addBoat [OF srt] length_addBoat [OF len]
      show ?thesis
        by (simp add: menu_step_def c_def [symmetric] loop_invariant_def)
    qed
  next
    case R
    obtain bs t r where rm: "removeBoat (boats s) rest = (bs, t, r)"
      by (cases "removeBoat (boats s) rest")
    from sorted_removeBoat [OF srt, of rest] length_removeBoat [of "boats s" rest] len rm
    have "sorted_by_name bs" "length bs \<le> MAX_BOATS" by simp_all
    with Some p R rm show ?thesis
      by (simp add: menu_step_def c_def [symmetric] loop_invariant_def)
  next
    case P
    obtain bs t r where ap: "acceptPayment (boats s) rest = (bs, t, r)"
      by (cases "acceptPayment (boats s) rest")
    from names_acceptPayment [of "boats s" rest] ap
    have nm: "map name bs = map name (boats s)" by simp
    with srt len length_of_names [OF nm]
    have "sorted_by_name bs" "length bs \<le> MAX_BOATS" by (simp_all add: sorted_by_name_def)
    with Some p P ap show ?thesis
      by (simp add: menu_step_def c_def [symmetric] loop_invariant_def)
  next
    case M
    from names_updateMonthlyCharges [of "boats s"] srt
    have "sorted_by_name (updateMonthlyCharges (boats s))"
      by (simp only: sorted_by_name_def)
    moreover from len have "length (updateMonthlyCharges (boats s)) \<le> MAX_BOATS"
      by (simp add: updateMonthlyCharges_def)
    ultimately have "sorted_by_name (updateMonthlyCharges (boats s))"
      "length (updateMonthlyCharges (boats s)) \<le> MAX_BOATS" by simp_all
    with Some p M show ?thesis
      by (simp add: menu_step_def c_def [symmetric] loop_invariant_def)
  next
    case other
    with Some p assms show ?thesis
      by (simp add: menu_step_def c_def [symmetric] loop_invariant_def)
  qed
qed

lemma reachable_invariant:
  "reachable fn f t s \<Longrightarrow> loop_invariant s"
proof (induction rule: reachable.induct)
  case start
  have "sorted_by_name (fst (loadBoatData fn f []))"
    by (rule sorted_loadBoatData) (simp add: sorted_by_name_def)
  moreover have "length (fst (loadBoatData fn f [])) \<le> MAX_BOATS"
    by (rule length_loadBoatData) simp
  ultimately show ?case by (simp add: loop_invariant_def)
next
  case (pass s)
  then show ?case by (simp add: menu_step_invariant)
qed

text \<open>
  Claim C5. The boats are sorted by name, without regard to letter case, after every
  load and after every add that succeeds, and in every state that the menu loop
  reaches.
\<close>

theorem sorted_after_load_and_add:
  "sorted_by_name (fst (loadBoatData fn (Some content) bs0)) \<and>
   sorted_by_name (fst (loadBoatData fn None [])) \<and>
   (snd (addBoat bs d) = None \<longrightarrow> sorted_by_name (fst (addBoat bs d))) \<and>
   (reachable fn f t s \<longrightarrow> sorted_by_name (boats s))"
proof (intro conjI impI)
  show "sorted_by_name (fst (loadBoatData fn (Some content) bs0))"
    by (simp add: loadBoatData_def sorted_qsort)
  show "sorted_by_name (fst (loadBoatData fn None []))"
    by (simp add: loadBoatData_def sorted_by_name_def)
next
  assume "snd (addBoat bs d) = None"
  with addBoat_cases [of bs d] show "sorted_by_name (fst (addBoat bs d))"
    by (auto simp: sorted_qsort)
next
  assume "reachable fn f t s"
  then show "sorted_by_name (boats s)"
    using reachable_invariant by (simp add: loop_invariant_def)
qed

theorem sorted_after_load_and_add_witness:
  "fst (loadBoatData ''boats.csv'' (Some two_lines) []) = [alice, bob] \<and>
   sorted_by_name (fst (loadBoatData ''boats.csv'' (Some two_lines) [])) \<and>
   snd (addBoat [bob] ''Alice,20,slip,5,100.00'') = None \<and>
   fst (addBoat [bob] ''Alice,20,slip,5,100.00'') = [alice, bob] \<and>
   sorted_by_name (fst (addBoat [bob] ''Alice,20,slip,5,100.00'')) \<and>
   reachable ''boats.csv'' (Some two_lines) typed_add
     (menu_step \<lparr>boats = fst (loadBoatData ''boats.csv'' (Some two_lines) []), stdin = typed_add,
                 choice = None\<rparr>) \<and>
   sorted_by_name
     (boats (menu_step \<lparr>boats = fst (loadBoatData ''boats.csv'' (Some two_lines) []), stdin = typed_add,
                         choice = None\<rparr>))"
proof -
  have l: "fst (loadBoatData ''boats.csv'' (Some two_lines) []) = [alice, bob]"
    by code_simp
  have a: "snd (addBoat [bob] ''Alice,20,slip,5,100.00'') = None"
    by code_simp
  have b: "fst (addBoat [bob] ''Alice,20,slip,5,100.00'') = [alice, bob]"
    by code_simp
  have r: "reachable ''boats.csv'' (Some two_lines) typed_add
     (menu_step \<lparr>boats = fst (loadBoatData ''boats.csv'' (Some two_lines) []), stdin = typed_add,
                 choice = None\<rparr>)"
    by (rule reachable.pass [OF reachable.start]) simp
  note t = sorted_after_load_and_add [of "''boats.csv''" two_lines "[]" "[bob]" "''Alice,20,slip,5,100.00''"
      "Some two_lines" typed_add
      "menu_step \<lparr>boats = fst (loadBoatData ''boats.csv'' (Some two_lines) []), stdin = typed_add,
                  choice = None\<rparr>"]
  from t have 1: "sorted_by_name (fst (loadBoatData ''boats.csv'' (Some two_lines) []))" by (rule conjunct1)
  from t a have 2: "sorted_by_name (fst (addBoat [bob] ''Alice,20,slip,5,100.00''))" by blast
  from t r have 3: "sorted_by_name
     (boats (menu_step \<lparr>boats = fst (loadBoatData ''boats.csv'' (Some two_lines) []), stdin = typed_add,
                         choice = None\<rparr>))" by blast
  from l a b r 1 2 3 show ?thesis by (intro conjI)
qed

text \<open>
  Claim C8. addBoat on \<open>MAX_BOATS\<close> boats or more prints that the maximum is reached
  and leaves the boats as they are; loadBoatData keeps at most \<open>MAX_BOATS\<close> boats; no
  state that the menu loop reaches holds more.
\<close>

theorem capacity_bound:
  "(MAX_BOATS \<le> length bs \<longrightarrow> addBoat bs d = (bs, Some MaximumReached)) \<and>
   length (fst (loadBoatData fn (Some content) bs0)) \<le> MAX_BOATS \<and>
   (reachable fn f t s \<longrightarrow> length (boats s) \<le> MAX_BOATS)"
proof (intro conjI impI)
  assume "MAX_BOATS \<le> length bs"
  then show "addBoat bs d = (bs, Some MaximumReached)" by (simp add: addBoat_def)
next
  show "length (fst (loadBoatData fn (Some content) bs0)) \<le> MAX_BOATS"
    by (simp add: loadBoatData_def length_qsort length_load_loop)
next
  assume "reachable fn f t s"
  then show "length (boats s) \<le> MAX_BOATS"
    using reachable_invariant by (simp add: loop_invariant_def)
qed

theorem capacity_bound_witness:
  "MAX_BOATS \<le> length (replicate 120 alice) \<and>
   addBoat (replicate 120 alice) ''Carol,16,trailor,TX1234,0.00''
     = (replicate 120 alice, Some MaximumReached) \<and>
   reachable ''boats.csv'' (Some two_lines) typed_add
     (menu_step \<lparr>boats = fst (loadBoatData ''boats.csv'' (Some two_lines) []), stdin = typed_add,
                 choice = None\<rparr>) \<and>
   length (boats (menu_step \<lparr>boats = fst (loadBoatData ''boats.csv'' (Some two_lines) []),
                             stdin = typed_add, choice = None\<rparr>)) \<le> MAX_BOATS"
proof -
  have h: "MAX_BOATS \<le> length (replicate 120 alice)" by (simp add: MAX_BOATS_def)
  have r: "reachable ''boats.csv'' (Some two_lines) typed_add
     (menu_step \<lparr>boats = fst (loadBoatData ''boats.csv'' (Some two_lines) []), stdin = typed_add,
                 choice = None\<rparr>)"
    by (rule reachable.pass [OF reachable.start]) simp
  note t = capacity_bound [of "replicate 120 alice" "''Carol,16,trailor,TX1234,0.00''"
      "''boats.csv''" two_lines "[]" "Some two_lines" typed_add
      "menu_step \<lparr>boats = fst (loadBoatData ''boats.csv'' (Some two_lines) []), stdin = typed_add,
                  choice = None\<rparr>"]
  from t h have 1: "addBoat (replicate 120 alice) ''Carol,16,trailor,TX1234,0.00''
     = (replicate 120 alice, Some MaximumReached)" by blast
  from t r have 2: "length (boats (menu_step \<lparr>boats = fst (loadBoatData ''boats.csv'' (Some two_lines) []),
                             stdin = typed_add, choice = None\<rparr>)) \<le> MAX_BOATS" by blast
  from h r 1 2 show ?thesis by (intro conjI)
qed

section \<open>Decoding a line\<close>

subsection \<open>The tokens of a line\<close>

lemma fields_not_Nil: "fields s \<noteq> []"
  by (induction s) (auto split: list.splits)

lemma fields_split:
  "fields s = takeWhile (\<lambda>c. c \<noteq> CHR '','') s #
     (case dropWhile (\<lambda>c. c \<noteq> CHR '','') s of [] \<Rightarrow> [] | c # r \<Rightarrow> fields r)"
proof (induction s)
  case Nil
  show ?case by simp
next
  case (Cons c s)
  then show ?case by (cases "c = CHR '',''") (auto split: list.splits)
qed

lemma tokens_Nil: "tokens [] = []"
  by (simp add: tokens_def)

lemma tokens_comma: "tokens (CHR '','' # s) = tokens s"
  by (simp add: tokens_def)

lemma tokens_dropWhile: "tokens (dropWhile (\<lambda>c. c = CHR '','') s) = tokens s"
  by (induction s) (simp_all add: tokens_comma)

lemma tokens_split:
  "tokens s = filter (\<lambda>f. f \<noteq> []) [takeWhile (\<lambda>c. c \<noteq> CHR '','') s] @
     tokens (drop 1 (dropWhile (\<lambda>c. c \<noteq> CHR '','') s))"
proof (cases "dropWhile (\<lambda>c. c \<noteq> CHR '','') s")
  case Nil
  have "tokens s = filter (\<lambda>f. f \<noteq> []) (fields s)" by (simp add: tokens_def)
  also have "fields s = [takeWhile (\<lambda>c. c \<noteq> CHR '','') s]"
    by (subst fields_split) (simp only: Nil list.case)
  finally show ?thesis by (simp only: Nil drop_Nil tokens_Nil append_Nil2)
next
  case (Cons c r)
  have "tokens s = filter (\<lambda>f. f \<noteq> []) (fields s)" by (simp add: tokens_def)
  also have "fields s = takeWhile (\<lambda>c. c \<noteq> CHR '','') s # fields r"
    by (subst fields_split) (simp only: Cons list.case)
  finally show ?thesis by (simp only: Cons) (simp add: tokens_def)
qed

lemma strtok_r_None: "strtok_r s = (None, r) \<Longrightarrow> tokens s = []"
proof -
  assume "strtok_r s = (None, r)"
  then have "dropWhile (\<lambda>c. c = CHR '','') s = []"
    by (simp add: strtok_r_def Let_def split: if_splits)
  with tokens_dropWhile [of s] show ?thesis by (simp add: tokens_Nil)
qed

lemma strtok_r_Some: "strtok_r s = (Some t, r) \<Longrightarrow> tokens s = t # tokens r"
proof -
  assume a: "strtok_r s = (Some t, r)"
  define s1 where "s1 = dropWhile (\<lambda>c. c = CHR '','') s"
  from a have ne: "s1 \<noteq> []"
    and t: "t = takeWhile (\<lambda>c. c \<noteq> CHR '','') s1"
    and r: "r = drop 1 (dropWhile (\<lambda>c. c \<noteq> CHR '','') s1)"
    by (simp_all add: strtok_r_def Let_def s1_def split: if_splits)
  from ne have "hd s1 \<noteq> CHR '',''"
    unfolding s1_def using hd_dropWhile [of "\<lambda>c. c = CHR '',''" s] by blast
  with ne have "t \<noteq> []" unfolding t by (cases s1) auto
  have "tokens s = tokens s1" by (simp add: s1_def tokens_dropWhile)
  also have "\<dots> = filter (\<lambda>f. f \<noteq> []) [t] @ tokens r"
    unfolding t r by (rule tokens_split)
  finally show ?thesis using \<open>t \<noteq> []\<close> by simp
qed

lemma strtok_r_cases:
  "(case tokens s of
      [] \<Rightarrow> fst (strtok_r s) = None
    | t # ts \<Rightarrow> fst (strtok_r s) = Some t \<and> tokens (snd (strtok_r s)) = ts)"
proof (cases "strtok_r s")
  case (Pair a r)
  show ?thesis
  proof (cases a)
    case None
    with Pair strtok_r_None [of s r] show ?thesis by simp
  next
    case (Some t)
    with Pair strtok_r_Some [of s t r] show ?thesis by simp
  qed
qed

lemma tokens_nonempty: "t \<in> set (tokens s) \<Longrightarrow> t \<noteq> []"
  by (simp add: tokens_def)

lemma fields_no_comma: "f \<in> set (fields s) \<Longrightarrow> CHR '','' \<notin> set f"
proof (induction s arbitrary: f)
  case Nil
  then show ?case by simp
next
  case (Cons c s)
  then show ?case
    by (cases "fields s") (auto split: if_splits)
qed

lemma tokens_no_comma: "t \<in> set (tokens s) \<Longrightarrow> CHR '','' \<notin> set t"
  by (auto simp: tokens_def dest: fields_no_comma)

lemma tokens_single: "t \<noteq> [] \<Longrightarrow> CHR '','' \<notin> set t \<Longrightarrow> tokens t = [t]"
proof -
  assume a: "t \<noteq> []" "CHR '','' \<notin> set t"
  then have 1: "takeWhile (\<lambda>c. c \<noteq> CHR '','') t = t" by (auto simp: takeWhile_eq_all_conv)
  from a have 2: "dropWhile (\<lambda>c. c \<noteq> CHR '','') t = []" by (auto simp: dropWhile_eq_Nil_conv)
  show ?thesis using a by (subst tokens_split) (simp add: 1 2 tokens_Nil)
qed

lemma strtok_r_tokens_Nil: "tokens s = [] \<Longrightarrow> fst (strtok_r s) = None"
  using strtok_r_cases [of s] by simp

lemma strtok_r_tokens_Cons:
  "tokens s = t # ts \<Longrightarrow> \<exists>r. strtok_r s = (Some t, r) \<and> tokens r = ts"
  using strtok_r_cases [of s] by (cases "strtok_r s") simp

lemma location_of_Some_iff:
  "v \<noteq> [] \<Longrightarrow> (location_of cmp kw v \<noteq> None) = is_keyword cmp kw"
  by (cases v) (auto simp: location_of_def is_keyword_def)

lemma load_location_Nil: "tokens r = [] \<Longrightarrow> load_location kw r = None"
  using strtok_r_tokens_Nil [of r]
  by (cases "strtok_r r") (auto simp: load_location_def)

lemma load_location_Cons:
  assumes "tokens r = v # ts"
  shows "\<exists>r'. tokens r' = ts \<and>
           load_location kw r = map_option (\<lambda>l. (l, r')) (location_of strcmp kw v)"
proof -
  from strtok_r_tokens_Cons [OF assms] obtain r' where
    r': "strtok_r r = (Some v, r')" "tokens r' = ts" by blast
  have "load_location kw r = map_option (\<lambda>l. (l, r')) (location_of strcmp kw v)"
    using r' by (auto simp: load_location_def location_of_def split: list.splits)
  with r' show ?thesis by blast
qed

lemma add_location_Nil:
  "tokens r = [] \<Longrightarrow>
   add_location kw r = Inl (if is_keyword strcasecmp kw then InvalidFormat else InvalidLocationType)"
  using strtok_r_tokens_Nil [of r]
  by (cases "strtok_r r") (auto simp: add_location_def is_keyword_def)

lemma add_location_Cons:
  assumes "tokens r = v # ts"
  shows "\<exists>r'. tokens r' = ts \<and>
           add_location kw r =
             (case location_of strcasecmp kw v of
                None \<Rightarrow> Inl InvalidLocationType
              | Some l \<Rightarrow> Inr (l, r'))"
proof -
  from strtok_r_tokens_Cons [OF assms] obtain r' where
    r': "strtok_r r = (Some v, r')" "tokens r' = ts" by blast
  from assms have "v \<noteq> []" using tokens_nonempty [of v r] by simp
  then obtain c cs where v: "v = c # cs" by (cases v) auto
  have "add_location kw r =
          (case location_of strcasecmp kw v of
             None \<Rightarrow> Inl InvalidLocationType
           | Some l \<Rightarrow> Inr (l, r'))"
    using r' v by (auto simp: add_location_def location_of_def)
  with r' show ?thesis by blast
qed

lemma load_line_tokens:
  "load_line s =
     (case tokens s of
        t1 # t2 # t3 # t4 # t5 # ts \<Rightarrow>
          map_option (\<lambda>l. boat_of t1 t2 l t5) (location_of strcmp t3 t4)
      | _ \<Rightarrow> None)"
proof (cases "tokens s")
  case Nil
  with strtok_r_tokens_Nil [of s] show ?thesis
    by (cases "strtok_r s") (simp add: load_line_def)
next
  case c1: (Cons t1 ts1)
  from strtok_r_tokens_Cons [OF c1] obtain r1 where
    r1: "strtok_r s = (Some t1, r1)" "tokens r1 = ts1" by blast
  show ?thesis
  proof (cases ts1)
    case Nil
    with r1 c1 strtok_r_tokens_Nil [of r1] show ?thesis
      by (cases "strtok_r r1") (simp add: load_line_def)
  next
    case c2: (Cons t2 ts2)
    from strtok_r_tokens_Cons [of r1 t2 ts2] r1 c2 obtain r2 where
      r2: "strtok_r r1 = (Some t2, r2)" "tokens r2 = ts2" by auto
    show ?thesis
    proof (cases ts2)
      case Nil
      with r1 r2 c1 c2 strtok_r_tokens_Nil [of r2] show ?thesis
        by (cases "strtok_r r2") (simp add: load_line_def)
    next
      case c3: (Cons t3 ts3)
      from strtok_r_tokens_Cons [of r2 t3 ts3] r2 c3 obtain r3 where
        r3: "strtok_r r2 = (Some t3, r3)" "tokens r3 = ts3" by auto
      show ?thesis
      proof (cases ts3)
        case Nil
        with r3 have "load_location t3 r3 = None" by (simp add: load_location_Nil)
        with r1 r2 r3 c1 c2 c3 Nil show ?thesis by (simp add: load_line_def)
      next
        case c4: (Cons t4 ts4)
        from load_location_Cons [of r3 t4 ts4 t3] r3 c4 obtain r4 where
          r4: "tokens r4 = ts4"
            "load_location t3 r3 = map_option (\<lambda>l. (l, r4)) (location_of strcmp t3 t4)"
          by auto
        show ?thesis
        proof (cases ts4)
          case Nil
          with r4 strtok_r_tokens_Nil [of r4] have "fst (strtok_r r4) = None" by simp
          with r1 r2 r3 r4 c1 c2 c3 c4 Nil show ?thesis
            by (cases "strtok_r r4"; cases "location_of strcmp t3 t4")
               (simp_all add: load_line_def)
        next
          case c5: (Cons t5 ts5)
          from strtok_r_tokens_Cons [of r4 t5 ts5] r4 c5 obtain r5 where
            r5: "strtok_r r4 = (Some t5, r5)" by auto
          with r1 r2 r3 r4 c1 c2 c3 c4 c5 show ?thesis
            by (cases "location_of strcmp t3 t4") (simp_all add: load_line_def boat_of_def)
        qed
      qed
    qed
  qed
qed

lemma add_line_tokens:
  "add_line s =
     (case tokens s of
        t1 # t2 # t3 # t4 # t5 # ts \<Rightarrow>
          (case location_of strcasecmp t3 t4 of
             None \<Rightarrow> Inl InvalidLocationType
           | Some l \<Rightarrow> Inr (boat_of t1 t2 l t5))
      | [t1, t2, t3, t4] \<Rightarrow>
          Inl (if is_keyword strcasecmp t3 then InvalidFormat else InvalidLocationType)
      | [t1, t2, t3] \<Rightarrow>
          Inl (if is_keyword strcasecmp t3 then InvalidFormat else InvalidLocationType)
      | _ \<Rightarrow> Inl InvalidFormat)"
proof (cases "tokens s")
  case Nil
  with strtok_r_tokens_Nil [of s] show ?thesis
    by (cases "strtok_r s") (simp add: add_line_def)
next
  case c1: (Cons t1 ts1)
  from strtok_r_tokens_Cons [OF c1] obtain r1 where
    r1: "strtok_r s = (Some t1, r1)" "tokens r1 = ts1" by blast
  show ?thesis
  proof (cases ts1)
    case Nil
    with r1 c1 strtok_r_tokens_Nil [of r1] show ?thesis
      by (cases "strtok_r r1") (simp add: add_line_def)
  next
    case c2: (Cons t2 ts2)
    from strtok_r_tokens_Cons [of r1 t2 ts2] r1 c2 obtain r2 where
      r2: "strtok_r r1 = (Some t2, r2)" "tokens r2 = ts2" by auto
    show ?thesis
    proof (cases ts2)
      case Nil
      with r1 r2 c1 c2 strtok_r_tokens_Nil [of r2] show ?thesis
        by (cases "strtok_r r2") (simp add: add_line_def)
    next
      case c3: (Cons t3 ts3)
      from strtok_r_tokens_Cons [of r2 t3 ts3] r2 c3 obtain r3 where
        r3: "strtok_r r2 = (Some t3, r3)" "tokens r3 = ts3" by auto
      show ?thesis
      proof (cases ts3)
        case Nil
        with r3 have "add_location t3 r3 =
            Inl (if is_keyword strcasecmp t3 then InvalidFormat else InvalidLocationType)"
          by (simp add: add_location_Nil)
        with r1 r2 r3 c1 c2 c3 Nil show ?thesis by (simp add: add_line_def)
      next
        case c4: (Cons t4 ts4)
        from add_location_Cons [of r3 t4 ts4 t3] r3 c4 obtain r4 where
          r4: "tokens r4 = ts4"
            "add_location t3 r3 =
               (case location_of strcasecmp t3 t4 of
                  None \<Rightarrow> Inl InvalidLocationType
                | Some l \<Rightarrow> Inr (l, r4))"
          by auto
        from c1 c2 c3 c4 have "t4 \<noteq> []" using tokens_nonempty [of t4 s] by simp
        then have kw: "(location_of strcasecmp t3 t4 \<noteq> None) = is_keyword strcasecmp t3"
          by (rule location_of_Some_iff)
        show ?thesis
        proof (cases ts4)
          case Nil
          with r4 strtok_r_tokens_Nil [of r4] have "fst (strtok_r r4) = None" by simp
          with r1 r2 r3 r4 c1 c2 c3 c4 Nil kw show ?thesis
            by (cases "strtok_r r4"; cases "location_of strcasecmp t3 t4")
               (auto simp: add_line_def)
        next
          case c5: (Cons t5 ts5)
          from strtok_r_tokens_Cons [of r4 t5 ts5] r4 c5 obtain r5 where
            r5: "strtok_r r4 = (Some t5, r5)" by auto
          with r1 r2 r3 r4 c1 c2 c3 c4 c5 show ?thesis
            by (cases "location_of strcasecmp t3 t4") (simp_all add: add_line_def boat_of_def)
        qed
      qed
    qed
  qed
qed

subsection \<open>Lines of a file\<close>

lemma fgets_read_line:
  "newline \<notin> set l \<Longrightarrow> length l < k \<Longrightarrow>
   fgets_read k (l @ newline # rest) = (l @ [newline], rest)"
proof (induction l arbitrary: k)
  case Nil
  then show ?case by simp
next
  case (Cons c l)
  then have "length l < k - 1" "newline \<notin> set l" "c \<noteq> newline" by auto
  with Cons.IH [of "k - 1"] Cons.prems show ?case by simp
qed

lemma fgets_line:
  "newline \<notin> set l \<Longrightarrow> length l < n - 1 \<Longrightarrow>
   fgets n (l @ newline # rest) = Some (l @ [newline], rest)"
  by (simp add: fgets_def fgets_read_line)

lemma cstr_plain: "NUL \<notin> set l \<Longrightarrow> cstr l = l"
  by (auto simp: cstr_def takeWhile_eq_all_conv)

lemma strip_newline_line: "newline \<notin> set l \<Longrightarrow> strip_newline (l @ newline # r) = l"
  by (induction l) (auto simp: strip_newline_def)

lemma load_loop_Nil: "load_loop [] bs = bs"
  by (subst load_loop.simps) (simp add: fgets_def)

lemma load_loop_line:
  assumes "plain_line l" "length bs < MAX_BOATS"
  shows "load_loop (l @ newline # rest) bs =
           load_loop rest (case load_line l of None \<Rightarrow> bs | Some b \<Rightarrow> bs @ [b])"
proof -
  from assms have f: "fgets 256 (l @ newline # rest) = Some (l @ [newline], rest)"
    by (intro fgets_line) (simp_all add: plain_line_def)
  have "NUL \<noteq> newline" by (simp add: NUL_def newline_def)
  with assms have "cstr (l @ [newline]) = l @ [newline]"
    by (intro cstr_plain) (auto simp: plain_line_def)
  moreover from assms have "strip_newline (l @ [newline]) = l"
    using strip_newline_line [of l "[]"] by (simp add: plain_line_def)
  ultimately have "strip_newline (cstr (l @ [newline])) = l" by simp
  with f assms show ?thesis by (subst load_loop.simps) simp
qed

lemma strcmp_eq_0_iff: "strcmp a b = 0 \<longleftrightarrow> cstr a = cstr b"
proof (induction a b rule: strcmp.induct)
  case 1
  show ?case by (simp add: cstr_def)
next
  case (2 y ys)
  show ?case using of_char_pos_iff [of y] by (auto simp: cstr_def)
next
  case (3 x xs)
  show ?case using of_char_pos_iff [of x] by (auto simp: cstr_def)
next
  case (4 x xs y ys)
  have "(of_char x :: nat) = of_char y \<longleftrightarrow> x = y" by (rule of_char_eq_iff)
  with 4 show ?case by (auto simp: cstr_def)
qed

lemma five_tokens:
  "length (tokens s) < 5 \<or> (\<exists>t1 t2 t3 t4 t5 ts. tokens s = t1 # t2 # t3 # t4 # t5 # ts)"
proof (cases "length (tokens s) < 5")
  case True
  then show ?thesis by simp
next
  case False
  then obtain t1 ts1 where 1: "tokens s = t1 # ts1" by (cases "tokens s") auto
  with False obtain t2 ts2 where 2: "ts1 = t2 # ts2" by (cases ts1) auto
  with 1 False obtain t3 ts3 where 3: "ts2 = t3 # ts3" by (cases ts2) auto
  with 1 2 False obtain t4 ts4 where 4: "ts3 = t4 # ts4" by (cases ts3) auto
  with 1 2 3 False obtain t5 ts5 where 5: "ts4 = t5 # ts5" by (cases ts4) auto
  with 1 2 3 4 show ?thesis by simp
qed

lemma load_line_short: "length (tokens s) < 5 \<Longrightarrow> load_line s = None"
  by (subst load_line_tokens) (auto split: list.splits)

lemma load_line_None_iff:
  "(load_line s = None) = (length (tokens s) < 5 \<or> \<not> is_keyword strcmp (tokens s ! 2))"
proof (cases "length (tokens s) < 5")
  case True
  then show ?thesis by (simp add: load_line_short)
next
  case False
  with five_tokens [of s] obtain t1 t2 t3 t4 t5 ts where
    t: "tokens s = t1 # t2 # t3 # t4 # t5 # ts" by blast
  then have "t4 \<noteq> []" using tokens_nonempty [of t4 s] by simp
  then have "(location_of strcmp t3 t4 \<noteq> None) = is_keyword strcmp t3"
    by (rule location_of_Some_iff)
  with t False show ?thesis by (subst load_line_tokens) auto
qed

lemma add_line_short:
  "length (tokens s) < 5 \<Longrightarrow>
   add_line s = Inl InvalidFormat \<or> add_line s = Inl InvalidLocationType"
  by (subst (1 2) add_line_tokens) (auto split: list.splits)

lemma add_line_Inr_iff:
  "(\<exists>b. add_line s = Inr b) =
     (5 \<le> length (tokens s) \<and> is_keyword strcasecmp (tokens s ! 2))"
proof (cases "length (tokens s) < 5")
  case True
  with add_line_short [of s] show ?thesis by auto
next
  case False
  with five_tokens [of s] obtain t1 t2 t3 t4 t5 ts where
    t: "tokens s = t1 # t2 # t3 # t4 # t5 # ts" by blast
  then have "t4 \<noteq> []" using tokens_nonempty [of t4 s] by simp
  then have "(location_of strcasecmp t3 t4 \<noteq> None) = is_keyword strcasecmp t3"
    by (rule location_of_Some_iff)
  with t False show ?thesis
    by (subst add_line_tokens) (auto split: option.splits)
qed

lemma is_keyword_strcmp: "is_keyword strcmp t = (cstr t \<in> location_keywords)"
proof -
  have "cstr ''slip'' = ''slip''" "cstr ''land'' = ''land''" "cstr ''trailor'' = ''trailor''"
    "cstr ''storage'' = ''storage''"
    by (simp_all add: cstr_def NUL_def)
  then show ?thesis by (auto simp: is_keyword_def strcmp_eq_0_iff location_keywords_def)
qed

lemma is_keyword_strcasecmp: "is_keyword strcasecmp t = (map tolower (cstr t) \<in> location_keywords)"
proof -
  have "map tolower (cstr ''slip'') = ''slip''" "map tolower (cstr ''land'') = ''land''"
    "map tolower (cstr ''trailor'') = ''trailor''" "map tolower (cstr ''storage'') = ''storage''"
    by (simp_all add: cstr_def NUL_def tolower_def isupper_def)
  then show ?thesis by (auto simp: is_keyword_def strcasecmp_eq_0_iff location_keywords_def)
qed

subsection \<open>The keyword of the location\<close>

text \<open>
  Claim C1. The keyword of the third field is matched without regard to letter case
  by addBoat, and letter for letter by loadBoatData: a line of a file whose keyword is
  not in lower case is skipped, although addBoat takes the same line.
\<close>

theorem keyword_matching:
  "((\<exists>b. add_line l = Inr b) =
      (5 \<le> length (tokens l) \<and> map tolower (cstr (tokens l ! 2)) \<in> location_keywords)) \<and>
   ((\<exists>b. load_line l = Some b) =
      (5 \<le> length (tokens l) \<and> cstr (tokens l ! 2) \<in> location_keywords)) \<and>
   add_line ''Jennifer,23,SLIP,24,1000.00'' =
     Inr \<lparr>name = ''Jennifer'', length_ft = Finite 23, location = Slip 24,
          amountOwed = Finite 1000\<rparr> \<and>
   load_line ''Jennifer,23,SLIP,24,1000.00'' = None \<and>
   loadBoatData fn (Some (''Jennifer,23,SLIP,24,1000.00'' @ [newline])) [] = ([], None)"
proof (intro conjI)
  show "(\<exists>b. add_line l = Inr b) =
      (5 \<le> length (tokens l) \<and> map tolower (cstr (tokens l ! 2)) \<in> location_keywords)"
    by (simp only: add_line_Inr_iff is_keyword_strcasecmp)
  have "(\<exists>b. load_line l = Some b) = (load_line l \<noteq> None)" by auto
  also have "\<dots> = (5 \<le> length (tokens l) \<and> cstr (tokens l ! 2) \<in> location_keywords)"
    by (simp only: load_line_None_iff is_keyword_strcmp) auto
  finally show "(\<exists>b. load_line l = Some b) =
      (5 \<le> length (tokens l) \<and> cstr (tokens l ! 2) \<in> location_keywords)" .
  show "add_line ''Jennifer,23,SLIP,24,1000.00'' =
     Inr \<lparr>name = ''Jennifer'', length_ft = Finite 23, location = Slip 24,
          amountOwed = Finite 1000\<rparr>"
    by code_simp
  show "load_line ''Jennifer,23,SLIP,24,1000.00'' = None"
    by code_simp
  show "loadBoatData fn (Some (''Jennifer,23,SLIP,24,1000.00'' @ [newline])) [] = ([], None)"
    by code_simp
qed

subsection \<open>Missing and empty fields\<close>

lemma load_line_same_tokens: "tokens l = tokens l' \<Longrightarrow> load_line l = load_line l'"
  by (simp add: load_line_tokens)

lemma add_line_same_tokens: "tokens l = tokens l' \<Longrightarrow> add_line l = add_line l'"
  by (simp add: add_line_tokens)

lemma add_line_short_report:
  assumes "length (tokens l) < 5"
  shows "add_line l =
           Inl (if 3 \<le> length (tokens l) \<and> map tolower (cstr (tokens l ! 2)) \<notin> location_keywords
                then InvalidLocationType else InvalidFormat)"
proof -
  have k: "\<And>t. is_keyword strcasecmp t = (map tolower (cstr t) \<in> location_keywords)"
    by (rule is_keyword_strcasecmp)
  from assms show ?thesis
    by (subst add_line_tokens) (auto simp: k split: list.splits)
qed

text \<open>
  Claim C6, as stated, fails: a line with an empty field is taken when five fields
  that are not empty and a keyword remain, and addBoat reports a missing length as a
  wrong location type, not as a wrong format.
\<close>

theorem empty_field_is_skipped:
  "[] \<in> set (fields ''Alice,,20,slip,5,100.00'') \<and>
   load_line ''Alice,,20,slip,5,100.00'' = Some alice \<and>
   addBoat [] ''Alice,,20,slip,5,100.00'' = ([alice], None) \<and>
   length (fields ''Alice,slip,5,100.00'') < 5 \<and>
   addBoat [] ''Alice,slip,5,100.00'' = ([], Some InvalidLocationType)"
  by code_simp

text \<open>
  Claim C6, amended. Empty fields are skipped, not detected: both decoders read a line
  from its tokens, the fields that are not empty, so that two lines with the same
  tokens are decoded alike. A line with fewer than five tokens is rejected.
  loadBoatData skips it, so that a file of one good line and one such line, each
  shorter than 255 bytes, loads the one boat. addBoat, on the first 255 bytes of what
  was typed, leaves the boats as they are and reports that the maximum is reached when
  there are \<open>MAX_BOATS\<close> boats, otherwise a wrong location type when there is a third
  token and it is no keyword in any letter case, otherwise a wrong format.
\<close>

theorem too_few_fields_rejected:
  "(tokens l = tokens l' \<longrightarrow> load_line l = load_line l' \<and> add_line l = add_line l') \<and>
   (length (tokens l) < 5 \<longrightarrow>
      load_line l = None \<and>
      add_line l =
        Inl (if 3 \<le> length (tokens l) \<and>
                map tolower (cstr (tokens l ! 2)) \<notin> location_keywords
             then InvalidLocationType else InvalidFormat)) \<and>
   (length (tokens (take 255 d)) < 5 \<longrightarrow>
      addBoat bs d =
        (bs, Some (if MAX_BOATS \<le> length bs then MaximumReached
                   else if 3 \<le> length (tokens (take 255 d)) \<and>
                           map tolower (cstr (tokens (take 255 d) ! 2)) \<notin> location_keywords
                   then InvalidLocationType else InvalidFormat))) \<and>
   (load_line l1 = Some b \<and> length (tokens l2) < 5 \<and> plain_line l1 \<and> plain_line l2 \<longrightarrow>
      loadBoatData fn (Some (l1 @ [newline] @ l2 @ [newline])) bs0 = ([b], None) \<and>
      loadBoatData fn (Some (l2 @ [newline] @ l1 @ [newline])) bs0 = ([b], None))"
proof (intro conjI impI)
  assume e: "tokens l = tokens l'"
  from e show "load_line l = load_line l'" by (rule load_line_same_tokens)
  from e show "add_line l = add_line l'" by (rule add_line_same_tokens)
next
  assume s: "length (tokens l) < 5"
  from s show "load_line l = None" by (rule load_line_short)
  from s show "add_line l =
        Inl (if 3 \<le> length (tokens l) \<and>
                map tolower (cstr (tokens l ! 2)) \<notin> location_keywords
             then InvalidLocationType else InvalidFormat)"
    by (rule add_line_short_report)
next
  assume "length (tokens (take 255 d)) < 5"
  from add_line_short_report [OF this]
  show "addBoat bs d =
        (bs, Some (if MAX_BOATS \<le> length bs then MaximumReached
                   else if 3 \<le> length (tokens (take 255 d)) \<and>
                           map tolower (cstr (tokens (take 255 d) ! 2)) \<notin> location_keywords
                   then InvalidLocationType else InvalidFormat))"
    by (simp add: addBoat_def)
next
  assume a: "load_line l1 = Some b \<and> length (tokens l2) < 5 \<and> plain_line l1 \<and> plain_line l2"
  then have n: "load_line l2 = None" by (simp add: load_line_short)
  have m: "0 < MAX_BOATS" "1 < MAX_BOATS" by (simp_all add: MAX_BOATS_def)
  from a m have "load_loop (l1 @ newline # l2 @ [newline]) [] = load_loop (l2 @ [newline]) [b]"
    by (simp add: load_loop_line)
  also from a n m have "\<dots> = load_loop [] [b]"
    using load_loop_line [of l2 "[b]" "[]"] by simp
  finally show "loadBoatData fn (Some (l1 @ [newline] @ l2 @ [newline])) bs0 = ([b], None)"
    by (simp add: loadBoatData_def load_loop_Nil)
  from a n m have "load_loop (l2 @ newline # l1 @ [newline]) [] = load_loop (l1 @ [newline]) []"
    by (simp add: load_loop_line)
  also from a m have "\<dots> = load_loop [] [b]"
    using load_loop_line [of l1 "[]" "[]"] by simp
  finally show "loadBoatData fn (Some (l2 @ [newline] @ l1 @ [newline])) bs0 = ([b], None)"
    by (simp add: loadBoatData_def load_loop_Nil)
qed

theorem too_few_fields_rejected_witness:
  "tokens ''Alice,,20,slip,5,100.00'' = tokens ''Alice,20,slip,5,100.00'' \<and>
   load_line ''Alice,,20,slip,5,100.00'' = load_line ''Alice,20,slip,5,100.00'' \<and>
   length (tokens ''Bob,15,land,B'') < 5 \<and>
   load_line ''Bob,15,land,B'' = None \<and>
   add_line ''Bob,15,land,B'' = Inl InvalidFormat \<and>
   length (tokens ''Bob,yard,B,50.00'') < 5 \<and>
   add_line ''Bob,yard,B,50.00'' = Inl InvalidLocationType \<and>
   length (tokens (take 255 ''Bob,15,land,B'')) < 5 \<and>
   addBoat [alice] ''Bob,15,land,B'' = ([alice], Some InvalidFormat) \<and>
   load_line ''Alice,20,slip,5,100.00'' = Some alice \<and>
   plain_line ''Alice,20,slip,5,100.00'' \<and> plain_line ''Bob,15,land,B'' \<and>
   loadBoatData ''boats.csv''
     (Some (''Alice,20,slip,5,100.00'' @ [newline] @ ''Bob,15,land,B'' @ [newline])) []
     = ([alice], None)"
proof -
  have w0: "tokens ''Alice,,20,slip,5,100.00'' = tokens ''Alice,20,slip,5,100.00''" by code_simp
  have w1: "length (tokens ''Bob,15,land,B'') < 5" by code_simp
  have w1b: "length (tokens ''Bob,yard,B,50.00'') < 5" by code_simp
  have w2: "length (tokens (take 255 ''Bob,15,land,B'')) < 5" by code_simp
  have w3: "load_line ''Alice,20,slip,5,100.00'' = Some alice" by code_simp
  have w4: "plain_line ''Alice,20,slip,5,100.00''" "plain_line ''Bob,15,land,B''" by code_simp+
  have e1: "(if 3 \<le> length (tokens ''Bob,15,land,B'') \<and>
                map tolower (cstr (tokens ''Bob,15,land,B'' ! 2)) \<notin> location_keywords
             then InvalidLocationType else InvalidFormat) = InvalidFormat" by code_simp
  have e2: "(if 3 \<le> length (tokens ''Bob,yard,B,50.00'') \<and>
                map tolower (cstr (tokens ''Bob,yard,B,50.00'' ! 2)) \<notin> location_keywords
             then InvalidLocationType else InvalidFormat) = InvalidLocationType" by code_simp
  have e3: "(if MAX_BOATS \<le> length [alice] then MaximumReached
                   else if 3 \<le> length (tokens (take 255 ''Bob,15,land,B'')) \<and>
                           map tolower (cstr (tokens (take 255 ''Bob,15,land,B'') ! 2)) \<notin> location_keywords
                   then InvalidLocationType else InvalidFormat) = InvalidFormat" by code_simp
  note t = too_few_fields_rejected [of "''Bob,15,land,B''" "''Bob,15,land,B''" "''Bob,15,land,B''"
      "[alice]" "''Alice,20,slip,5,100.00''" alice "''Bob,15,land,B''" "''boats.csv''" "[]"]
  note t' = too_few_fields_rejected [of "''Bob,yard,B,50.00''" "''Bob,yard,B,50.00''"]
  note t0 = too_few_fields_rejected [of "''Alice,,20,slip,5,100.00''" "''Alice,20,slip,5,100.00''"]
  from t0 w0 have w5: "load_line ''Alice,,20,slip,5,100.00'' = load_line ''Alice,20,slip,5,100.00''"
    by blast
  from t w1 have w6: "load_line ''Bob,15,land,B'' = None" by blast
  from t w1 e1 have w7: "add_line ''Bob,15,land,B'' = Inl InvalidFormat" by simp
  from t' w1b e2 have w8: "add_line ''Bob,yard,B,50.00'' = Inl InvalidLocationType" by simp
  from t w2 e3 have w9: "addBoat [alice] ''Bob,15,land,B'' = ([alice], Some InvalidFormat)" by simp
  from t w1 w3 w4 have w10:
    "loadBoatData ''boats.csv''
       (Some (''Alice,20,slip,5,100.00'' @ [newline] @ ''Bob,15,land,B'' @ [newline])) []
     = ([alice], None)" by blast
  from w0 w1 w1b w2 w3 w4 w5 w6 w7 w8 w9 w10 show ?thesis by (intro conjI)
qed

subsection \<open>Numeric fields\<close>




section \<open>Rounding\<close>

lemma round_even_of_int: "round_even (of_int n) = n"
  by (simp add: round_even_def)

lemma round_even_bounds: "\<lfloor>x\<rfloor> \<le> round_even x \<and> round_even x \<le> \<lfloor>x\<rfloor> + 1"
  by (simp add: round_even_def Let_def)

lemma round_even_mono: "x \<le> y \<Longrightarrow> round_even x \<le> round_even y"
proof -
  assume xy: "x \<le> y"
  then have f: "\<lfloor>x\<rfloor> \<le> \<lfloor>y\<rfloor>" by (rule floor_mono)
  show ?thesis
  proof (cases "\<lfloor>x\<rfloor> = \<lfloor>y\<rfloor>")
    case True
    with xy have "x - of_int \<lfloor>x\<rfloor> \<le> y - of_int \<lfloor>y\<rfloor>" by simp
    with True show ?thesis by (auto simp: round_even_def Let_def)
  next
    case False
    with f have "\<lfloor>x\<rfloor> + 1 \<le> \<lfloor>y\<rfloor>" by simp
    with round_even_bounds [of x] round_even_bounds [of y] show ?thesis by linarith
  qed
qed

lemma powi2_of_nat: "0 \<le> n \<Longrightarrow> (2::rat) powi n = of_int (2 ^ nat n)"
  by (simp add: power_int_def)

lemma ilog2_bounds:
  assumes "0 < x"
  shows "2 powi ilog2 x \<le> x" and "x < 2 powi (ilog2 x + 1)"
proof -
  obtain a b where q: "quotient_of x = (a, b)" by (cases "quotient_of x")
  then have b: "0 < b" by (rule quotient_of_denom_pos)
  from q have x: "x = of_int a / of_int b" by (rule quotient_of_div)
  with assms b have a: "0 < a" by (simp add: zero_less_divide_iff)
  define la where "la = bitlen a"
  define lb where "lb = bitlen b"
  define k where "k = la - lb"
  from a have la: "1 \<le> la" unfolding la_def
    using bitlen_eq_zero_iff [of a] bitlen_nonneg [of a] by linarith
  from b have lb: "1 \<le> lb" unfolding lb_def
    using bitlen_eq_zero_iff [of b] bitlen_nonneg [of b] by linarith
  from bitlen_bounds [OF a] have "2 ^ nat (la - 1) \<le> a" "a < 2 ^ nat la" by (simp_all add: la_def)
  then have "(of_int (2 ^ nat (la - 1)) :: rat) \<le> of_int a" "(of_int a :: rat) < of_int (2 ^ nat la)"
    by (simp_all only: of_int_le_iff of_int_less_iff)
  with la have A: "2 powi (la - 1) \<le> (of_int a :: rat)" "(of_int a :: rat) < 2 powi la"
    by (simp_all add: powi2_of_nat)
  from bitlen_bounds [OF b] have "2 ^ nat (lb - 1) \<le> b" "b < 2 ^ nat lb" by (simp_all add: lb_def)
  then have "(of_int (2 ^ nat (lb - 1)) :: rat) \<le> of_int b" "(of_int b :: rat) < of_int (2 ^ nat lb)"
    by (simp_all only: of_int_le_iff of_int_less_iff)
  with lb have B: "2 powi (lb - 1) \<le> (of_int b :: rat)" "(of_int b :: rat) < 2 powi lb"
    by (simp_all add: powi2_of_nat)
  have bp: "(0::rat) < of_int b" using b by simp
  have ap: "(0::rat) < of_int a" using a by simp
  have up: "x < 2 powi (k + 1)"
  proof -
    have "x < 2 powi la / of_int b" unfolding x using A(2) bp by (rule divide_strict_right_mono)
    also have "\<dots> \<le> 2 powi la / 2 powi (lb - 1)"
      using B(1) bp by (intro divide_left_mono) (simp_all add: zero_less_mult_iff)
    also have "\<dots> = 2 powi (la - (lb - 1))" by (simp add: power_int_diff)
    also have "la - (lb - 1) = k + 1" by (simp add: k_def)
    finally show ?thesis .
  qed
  have low: "2 powi (k - 1) < x"
  proof -
    have "2 powi (k - 1) = 2 powi (la - 1 - lb)" by (simp add: k_def algebra_simps)
    also have "\<dots> = 2 powi (la - 1) / (2 powi lb :: rat)" by (simp add: power_int_diff)
    also have "\<dots> < 2 powi (la - 1) / of_int b"
      using B(2) bp by (intro divide_strict_left_mono) simp_all
    also have "\<dots> \<le> x" unfolding x using A(1) bp by (intro divide_right_mono) simp_all
    finally show ?thesis .
  qed
  have il: "ilog2 x = (if 2 powi k \<le> x then k else k - 1)"
    by (simp add: ilog2_def q Let_def k_def la_def lb_def)
  show "2 powi ilog2 x \<le> x" using il low by (auto simp: less_imp_le)
  show "x < 2 powi (ilog2 x + 1)" using il up by auto
qed

lemma powi2_less_imp: "(2::rat) powi m < 2 powi n \<Longrightarrow> m < n"
proof (rule ccontr)
  assume a: "(2::rat) powi m < 2 powi n" and "\<not> m < n"
  then have "n \<le> m" by simp
  then have "(2::rat) powi n \<le> 2 powi m" by (intro power_int_increasing) simp_all
  with a show False by simp
qed

lemma ilog2_unique:
  assumes "0 < x" "2 powi e \<le> x" "x < 2 powi (e + 1)"
  shows "ilog2 x = e"
proof -
  from ilog2_bounds [OF assms(1)] assms
  have "(2::rat) powi ilog2 x < 2 powi (e + 1)" "(2::rat) powi e < 2 powi (ilog2 x + 1)"
    by linarith+
  then have "ilog2 x < e + 1" "e < ilog2 x + 1"
    by (auto dest: powi2_less_imp)
  then show ?thesis by simp
qed

lemma ilog2_mono:
  assumes "0 < x" "x \<le> y"
  shows "ilog2 x \<le> ilog2 y"
proof -
  from assms have y: "0 < y" by simp
  from ilog2_bounds [OF assms(1)] ilog2_bounds [OF y] assms
  have "(2::rat) powi ilog2 x < 2 powi (ilog2 y + 1)" by linarith
  then have "ilog2 x < ilog2 y + 1" by (rule powi2_less_imp)
  then show ?thesis by simp
qed

lemma fp_round_grid:
  "x \<noteq> 0 \<Longrightarrow>
   fp_round p emin emax x =
     (if 2 powi (emax + 1) \<le> \<bar>fp_grid p emin x\<bar> then (if 0 < x then PosInf else NegInf)
      else if fp_grid p emin x = 0 then (if 0 < x then Finite 0 else NegZero)
      else Finite (fp_grid p emin x))"
  by (simp add: fp_round_def fp_grid_def Let_def)

lemma fp_grid_nonneg: "0 < x \<Longrightarrow> 0 \<le> fp_grid p emin x"
proof -
  assume "0 < x"
  then have "0 \<le> x / 2 powi (max (ilog2 \<bar>x\<bar>) emin - int p + 1)" by simp
  then have "round_even 0 \<le> round_even (x / 2 powi (max (ilog2 \<bar>x\<bar>) emin - int p + 1))"
    by (rule round_even_mono)
  then have "0 \<le> round_even (x / 2 powi (max (ilog2 \<bar>x\<bar>) emin - int p + 1))"
    using round_even_of_int [of 0] by simp
  then show ?thesis by (simp add: fp_grid_def)
qed

lemma fp_grid_mono:
  assumes p: "0 < p" and x: "0 < x" and xy: "x \<le> y"
  shows "fp_grid p emin x \<le> fp_grid p emin y"
proof -
  from x xy have y: "0 < y" by simp
  define ex where "ex = max (ilog2 x) emin"
  define ey where "ey = max (ilog2 y) emin"
  define qx :: rat where "qx = 2 powi (ex - int p + 1)"
  define qy :: rat where "qy = 2 powi (ey - int p + 1)"
  have qxp: "0 < qx" and qyp: "0 < qy" by (simp_all add: qx_def qy_def)
  have gx: "fp_grid p emin x = of_int (round_even (x / qx)) * qx"
    using x by (simp add: fp_grid_def qx_def ex_def)
  have gy: "fp_grid p emin y = of_int (round_even (y / qy)) * qy"
    using y by (simp add: fp_grid_def qy_def ey_def)
  have le: "ex \<le> ey" using ilog2_mono [OF x xy] by (simp add: ex_def ey_def)
  show ?thesis
  proof (cases "ex = ey")
    case True
    then have q: "qx = qy" by (simp add: qx_def qy_def)
    from xy qyp have "x / qy \<le> y / qy" by (simp add: divide_right_mono)
    then have "round_even (x / qy) \<le> round_even (y / qy)" by (rule round_even_mono)
    then have "(of_int (round_even (x / qy)) :: rat) \<le> of_int (round_even (y / qy))" by simp
    with qyp have "of_int (round_even (x / qy)) * qy \<le> of_int (round_even (y / qy)) * qy"
      by (simp add: mult_right_mono)
    with gx gy q show ?thesis by simp
  next
    case False
    with le have lt: "ex < ey" by simp
    then have ey: "ey = ilog2 y" by (auto simp: ex_def ey_def max_def split: if_splits)
    have pp: "(2::rat) powi int p = of_int (2 ^ p)" by simp
    have pp1: "(2::rat) powi (int p - 1) = of_int (2 ^ (p - 1))"
      using p powi2_of_nat [of "int p - 1"] by (simp add: nat_diff_distrib')
    \<comment> \<open>the upper value is at least \<open>2 powi ey\<close>\<close>
    have "2 powi ey \<le> y" using ilog2_bounds(1) [OF y] ey by simp
    then have "2 powi ey / qy \<le> y / qy" using qyp by (simp add: divide_right_mono)
    moreover have "2 powi ey / qy = 2 powi (int p - 1)"
      by (simp add: qy_def power_int_diff [symmetric])
    ultimately have "of_int (2 ^ (p - 1)) \<le> y / qy" using pp1 by simp
    then have "round_even (of_int (2 ^ (p - 1))) \<le> round_even (y / qy)" by (rule round_even_mono)
    then have "(of_int (2 ^ (p - 1)) :: rat) \<le> of_int (round_even (y / qy))"
      by (simp only: round_even_of_int of_int_le_iff)
    then have "of_int (2 ^ (p - 1)) * qy \<le> of_int (round_even (y / qy)) * qy"
      using qyp by (simp add: mult_right_mono)
    moreover have "of_int (2 ^ (p - 1)) * qy = 2 powi ey"
      unfolding pp1 [symmetric] qy_def by (simp add: power_int_add [symmetric])
    ultimately have low: "2 powi ey \<le> fp_grid p emin y" using gy by simp
    \<comment> \<open>the lower value is at most \<open>2 powi (ex + 1)\<close>\<close>
    have "ilog2 x + 1 \<le> ex + 1" by (simp add: ex_def)
    then have "(2::rat) powi (ilog2 x + 1) \<le> 2 powi (ex + 1)"
      by (intro power_int_increasing) simp_all
    with ilog2_bounds(2) [OF x] have "x \<le> 2 powi (ex + 1)" by simp
    then have "x / qx \<le> 2 powi (ex + 1) / qx" using qxp by (simp add: divide_right_mono)
    moreover have "2 powi (ex + 1) / qx = 2 powi int p"
      by (simp add: qx_def power_int_diff [symmetric])
    ultimately have "x / qx \<le> of_int (2 ^ p)" using pp by simp
    then have "round_even (x / qx) \<le> round_even (of_int (2 ^ p))" by (rule round_even_mono)
    then have "(of_int (round_even (x / qx)) :: rat) \<le> of_int (2 ^ p)"
      by (simp only: round_even_of_int of_int_le_iff)
    then have "of_int (round_even (x / qx)) * qx \<le> of_int (2 ^ p) * qx"
      using qxp by (simp add: mult_right_mono)
    moreover have "of_int (2 ^ p) * qx = 2 powi (ex + 1)"
    proof -
      have "(2::rat) powi int p * 2 powi (ex - int p + 1) = 2 powi (int p + (ex - int p + 1))"
        by (rule power_int_add [symmetric]) simp
      also have "int p + (ex - int p + 1) = ex + 1" by simp
      finally show ?thesis by (simp only: pp qx_def)
    qed
    ultimately have up: "fp_grid p emin x \<le> 2 powi (ex + 1)" using gx by simp
    from lt have "(2::rat) powi (ex + 1) \<le> 2 powi ey" by (intro power_int_increasing) simp_all
    with low up show ?thesis by linarith
  qed
qed

lemma round_even_error: "\<bar>of_int (round_even x) - x\<bar> \<le> 1 / 2"
proof -
  have "of_int \<lfloor>x\<rfloor> \<le> x" "x < of_int \<lfloor>x\<rfloor> + 1" by linarith+
  then show ?thesis by (auto simp: round_even_def Let_def)
qed

lemma fp_grid_error:
  "\<bar>fp_grid p emin x - x\<bar> \<le> 2 powi (max (ilog2 \<bar>x\<bar>) emin - int p + 1) / 2"
proof -
  define q :: rat where "q = 2 powi (max (ilog2 \<bar>x\<bar>) emin - int p + 1)"
  have q: "0 < q" by (simp add: q_def)
  have "fp_grid p emin x - x = (of_int (round_even (x / q)) - x / q) * q"
    using q by (simp add: fp_grid_def q_def field_simps)
  then have "\<bar>fp_grid p emin x - x\<bar> = \<bar>of_int (round_even (x / q)) - x / q\<bar> * q"
    using q by (simp add: abs_mult)
  also have "\<dots> \<le> (1 / 2) * q"
    using q round_even_error [of "x / q"] by (intro mult_right_mono) simp_all
  finally show ?thesis by (simp add: q_def)
qed

lemma round32_finite_grid:
  assumes "round32 x = Finite r"
  shows "r = (if x = 0 then 0 else fp_grid 24 (- 126) x)"
proof (cases "x = 0")
  case True
  with assms show ?thesis by (simp add: round32_def fp_round_def)
next
  case False
  from assms have "fp_round 24 (- 126) 127 x = Finite r" by (simp only: round32_def)
  with False show ?thesis
    by (simp only: fp_round_grid [OF False] split: if_splits) simp_all
qed

lemma round32_error:
  assumes "round32 x = Finite r"
  shows "\<bar>r - x\<bar> \<le> max (\<bar>x\<bar> / 2 ^ 24) (1 / 2 ^ 150)"
proof (cases "x = 0")
  case True
  with assms show ?thesis by (simp add: round32_def fp_round_def)
next
  case False
  with round32_finite_grid [OF assms] have r: "r = fp_grid 24 (- 126) x" by simp
  have e: "\<bar>r - x\<bar> \<le> 2 powi (max (ilog2 \<bar>x\<bar>) (- 126) - 24 + 1) / 2"
    unfolding r using fp_grid_error [of 24 "- 126" x] by simp
  from False have ax: "0 < \<bar>x\<bar>" by simp
  show ?thesis
  proof (cases "- 126 \<le> ilog2 \<bar>x\<bar>")
    case True
    then have kk: "max (ilog2 \<bar>x\<bar>) (- 126) - 24 + 1 = ilog2 \<bar>x\<bar> + (- 23)" by simp
    have "(2::rat) powi (ilog2 \<bar>x\<bar> + (- 23)) = 2 powi ilog2 \<bar>x\<bar> * 2 powi (- 23)"
      by (rule power_int_add) simp
    with kk have "(2::rat) powi (max (ilog2 \<bar>x\<bar>) (- 126) - 24 + 1) = 2 powi ilog2 \<bar>x\<bar> * 2 powi (- 23)"
      by (simp only:)
    also have "\<dots> \<le> \<bar>x\<bar> * 2 powi (- 23)"
      using ilog2_bounds(1) [OF ax] by (intro mult_right_mono) simp_all
    finally have "(2::rat) powi (max (ilog2 \<bar>x\<bar>) (- 126) - 24 + 1) / 2 \<le> \<bar>x\<bar> * 2 powi (- 23) / 2"
      by simp
    also have "\<dots> = \<bar>x\<bar> / 2 ^ 24" by (simp add: power_int_minus)
    finally have "(2::rat) powi (max (ilog2 \<bar>x\<bar>) (- 126) - 24 + 1) / 2 \<le> \<bar>x\<bar> / 2 ^ 24" .
    with e have "\<bar>r - x\<bar> \<le> \<bar>x\<bar> / 2 ^ 24" by (rule order_trans)
    then show ?thesis by (simp only: le_max_iff_disj) simp
  next
    case False
    then have "max (ilog2 \<bar>x\<bar>) (- 126) - 24 + 1 = - 149" by simp
    then have "(2::rat) powi (max (ilog2 \<bar>x\<bar>) (- 126) - 24 + 1) / 2 = 1 / 2 ^ 150"
      by (simp add: power_int_minus)
    with e have "\<bar>r - x\<bar> \<le> 1 / 2 ^ 150" by (simp only:)
    then show ?thesis by (simp only: le_max_iff_disj) simp
  qed
qed

lemma round32_exact:
  assumes m: "\<bar>m\<bar> < 2 ^ 24" and e1: "- 149 \<le> e" and e2: "e \<le> 104"
  shows "round32 (of_int m * 2 powi e) = Finite (of_int m * 2 powi e)"
proof (cases "m = 0")
  case True
  then show ?thesis by (simp add: round32_def fp_round_def)
next
  case False
  define x :: rat where "x = of_int m * 2 powi e"
  from False have x0: "x \<noteq> 0" by (simp add: x_def)
  then have ax: "0 < \<bar>x\<bar>" by simp
  have axe: "\<bar>x\<bar> = of_int \<bar>m\<bar> * 2 powi e" by (simp add: x_def abs_mult)
  from m have "(of_int \<bar>m\<bar> :: rat) < of_int (2 ^ 24)" by (simp only: of_int_less_iff)
  then have "(of_int \<bar>m\<bar> :: rat) < 2 powi 24" by simp
  then have "\<bar>x\<bar> < 2 powi 24 * 2 powi e" unfolding axe by (intro mult_strict_right_mono) simp_all
  also have "\<dots> = 2 powi (24 + e)" by (simp add: power_int_add)
  finally have up: "\<bar>x\<bar> < 2 powi (24 + e)" .
  with ilog2_bounds(1) [OF ax] have "(2::rat) powi ilog2 \<bar>x\<bar> < 2 powi (24 + e)" by linarith
  then have il: "ilog2 \<bar>x\<bar> < 24 + e" by (rule powi2_less_imp)
  define k where "k = max (ilog2 \<bar>x\<bar>) (- 126) - 24 + 1"
  from il e1 have ke: "k \<le> e" by (simp add: k_def)
  have "x / 2 powi k = of_int m * (2 powi e / 2 powi k)" by (simp add: x_def)
  also have "2 powi e / 2 powi k = (2::rat) powi (e - k)" by (simp add: power_int_diff)
  also from ke have "(2::rat) powi (e - k) = of_int (2 ^ nat (e - k))" by (simp add: powi2_of_nat)
  finally have "x / 2 powi k = of_int (m * 2 ^ nat (e - k))" by simp
  then have "of_int (round_even (x / 2 powi k)) * 2 powi k = x / 2 powi k * 2 powi k"
    by (simp only: round_even_of_int)
  then have g: "fp_grid 24 (- 126) x = x" by (simp add: fp_grid_def k_def)
  from e2 have "(2::rat) powi (24 + e) \<le> 2 powi 128" by (intro power_int_increasing) simp_all
  with up have "\<bar>x\<bar> < 2 powi (127 + 1)" by simp
  with g x0 have "round32 x = Finite x" by (simp add: round32_def fp_round_grid)
  then show ?thesis by (simp only: x_def)
qed

lemma round32_PosInf:
  assumes "round32 x = PosInf"
  shows "2 ^ 128 - 2 ^ 103 \<le> x"
proof -
  from assms have x0: "x \<noteq> 0" by (auto simp: round32_def fp_round_def)
  from assms x0 have big: "2 powi (127 + 1) \<le> \<bar>fp_grid 24 (- 126) x\<bar>" and xp: "0 < x"
    by (auto simp: round32_def fp_round_grid split: if_splits)
  from fp_grid_nonneg [OF xp] big have g: "2 powi 128 \<le> fp_grid 24 (- 126) x" by simp
  show ?thesis
  proof (cases "128 \<le> ilog2 \<bar>x\<bar>")
    case True
    then have "(2::rat) powi 128 \<le> 2 powi ilog2 \<bar>x\<bar>" by (intro power_int_increasing) simp_all
    with ilog2_bounds(1) [of "\<bar>x\<bar>"] xp have "2 powi 128 \<le> x" by simp
    then show ?thesis by simp
  next
    case False
    then have "max (ilog2 \<bar>x\<bar>) (- 126) - 24 + 1 \<le> 104" by simp
    then have "(2::rat) powi (max (ilog2 \<bar>x\<bar>) (- 126) - 24 + 1) \<le> 2 powi 104"
      by (intro power_int_increasing) simp_all
    with fp_grid_error [of 24 "- 126" x] have "\<bar>fp_grid 24 (- 126) x - x\<bar> \<le> 2 powi 104 / 2"
      by simp
    with g show ?thesis by simp
  qed
qed

lemma fp_round_finite_grid:
  assumes "fp_round p emin emax x = Finite r"
  shows "r = (if x = 0 then 0 else fp_grid p emin x)"
proof (cases "x = 0")
  case True
  with assms show ?thesis by (simp add: fp_round_def)
next
  case False
  with assms show ?thesis
    by (simp only: fp_round_grid [OF False] split: if_splits) simp_all
qed

lemma fp_round_error:
  assumes "fp_round p emin emax x = Finite r"
  shows "\<bar>r - x\<bar> \<le> max (\<bar>x\<bar> / 2 ^ p) (2 powi (emin - int p))"
proof (cases "x = 0")
  case True
  with assms show ?thesis by (simp add: fp_round_def)
next
  case False
  with fp_round_finite_grid [OF assms] have r: "r = fp_grid p emin x" by simp
  have e: "\<bar>r - x\<bar> \<le> 2 powi (max (ilog2 \<bar>x\<bar>) emin - int p + 1) / 2"
    unfolding r by (rule fp_grid_error)
  from False have ax: "0 < \<bar>x\<bar>" by simp
  have half: "\<And>k. (2::rat) powi (k + 1) / 2 = 2 powi k"
    by (simp add: power_int_add)
  show ?thesis
  proof (cases "emin \<le> ilog2 \<bar>x\<bar>")
    case True
    then have kk: "max (ilog2 \<bar>x\<bar>) emin - int p + 1 = (ilog2 \<bar>x\<bar> + (- int p)) + 1" by simp
    have "(2::rat) powi (ilog2 \<bar>x\<bar> + (- int p)) = 2 powi ilog2 \<bar>x\<bar> * 2 powi (- int p)"
      by (rule power_int_add) simp
    also have "\<dots> \<le> \<bar>x\<bar> * 2 powi (- int p)"
      using ilog2_bounds(1) [OF ax] by (intro mult_right_mono) simp_all
    also have "\<dots> = \<bar>x\<bar> / 2 ^ p" by (simp add: power_int_minus field_simps)
    finally have "(2::rat) powi (max (ilog2 \<bar>x\<bar>) emin - int p + 1) / 2 \<le> \<bar>x\<bar> / 2 ^ p"
      by (simp only: kk half)
    with e have "\<bar>r - x\<bar> \<le> \<bar>x\<bar> / 2 ^ p" by (rule order_trans)
    then show ?thesis by (simp only: le_max_iff_disj) simp
  next
    case False
    then have "max (ilog2 \<bar>x\<bar>) emin - int p + 1 = (emin - int p) + 1" by simp
    then have "(2::rat) powi (max (ilog2 \<bar>x\<bar>) emin - int p + 1) / 2 = 2 powi (emin - int p)"
      by (simp only: half)
    with e have "\<bar>r - x\<bar> \<le> 2 powi (emin - int p)" by (simp only:)
    then show ?thesis by (simp only: le_max_iff_disj) simp
  qed
qed

lemma fp_round_exact:
  assumes m: "\<bar>m\<bar> < 2 ^ p" and e1: "emin - int p + 1 \<le> e" and e2: "e + int p \<le> emax + 1"
  shows "fp_round p emin emax (of_int m * 2 powi e) = Finite (of_int m * 2 powi e)"
proof (cases "m = 0")
  case True
  then show ?thesis by (simp add: fp_round_def)
next
  case False
  define x :: rat where "x = of_int m * 2 powi e"
  from False have x0: "x \<noteq> 0" by (simp add: x_def)
  then have ax: "0 < \<bar>x\<bar>" by simp
  have axe: "\<bar>x\<bar> = of_int \<bar>m\<bar> * 2 powi e" by (simp add: x_def abs_mult)
  from m have "(of_int \<bar>m\<bar> :: rat) < of_int (2 ^ p)" by (simp only: of_int_less_iff)
  then have "(of_int \<bar>m\<bar> :: rat) < 2 powi int p" by simp
  then have "\<bar>x\<bar> < 2 powi int p * 2 powi e" unfolding axe by (intro mult_strict_right_mono) simp_all
  also have "\<dots> = 2 powi (int p + e)" by (simp add: power_int_add)
  finally have up: "\<bar>x\<bar> < 2 powi (int p + e)" .
  with ilog2_bounds(1) [OF ax] have "(2::rat) powi ilog2 \<bar>x\<bar> < 2 powi (int p + e)" by linarith
  then have il: "ilog2 \<bar>x\<bar> < int p + e" by (rule powi2_less_imp)
  define k where "k = max (ilog2 \<bar>x\<bar>) emin - int p + 1"
  from il e1 have ke: "k \<le> e" by (simp add: k_def)
  have "x / 2 powi k = of_int m * (2 powi e / 2 powi k)" by (simp add: x_def)
  also have "2 powi e / 2 powi k = (2::rat) powi (e - k)" by (simp add: power_int_diff)
  also from ke have "(2::rat) powi (e - k) = of_int (2 ^ nat (e - k))" by (simp add: powi2_of_nat)
  finally have "x / 2 powi k = of_int (m * 2 ^ nat (e - k))" by simp
  then have "of_int (round_even (x / 2 powi k)) * 2 powi k = x / 2 powi k * 2 powi k"
    by (simp only: round_even_of_int)
  then have g: "fp_grid p emin x = x" by (simp add: fp_grid_def k_def)
  from e2 have "(2::rat) powi (int p + e) \<le> 2 powi (emax + 1)"
    by (intro power_int_increasing) simp_all
  with up have "\<bar>x\<bar> < 2 powi (emax + 1)" by simp
  with g x0 have "fp_round p emin emax x = Finite x" by (simp add: fp_round_grid)
  then show ?thesis by (simp only: x_def)
qed

lemma round64_error:
  assumes "round64 x = Finite r"
  shows "\<bar>r - x\<bar> \<le> max (\<bar>x\<bar> / 2 ^ 53) (1 / 2 ^ 1075)"
proof -
  from assms have "fp_round 53 (- 1022) 1023 x = Finite r" by (simp only: round64_def)
  from fp_round_error [OF this] show ?thesis by (simp add: power_int_minus)
qed

lemma round64_exact:
  assumes "\<bar>m\<bar> < 2 ^ 53" "- 1074 \<le> e" "e \<le> 971"
  shows "round64 (of_int m * 2 powi e) = Finite (of_int m * 2 powi e)"
  unfolding round64_def using assms by (intro fp_round_exact) simp_all

section \<open>acceptPayment\<close>

lemma first_match_find: "first_match bs nm i = (findBoatByName bs nm = Some i)"
  by (simp add: first_match_def findBoatByName_Some_iff strcasecmp_ci_equal)

lemma fp_sub_self: "fp_sub rnd (Finite x) (Finite x) = Finite 0"
  by simp

lemma round32_not_below:
  assumes a: "0 \<le> a" and fa: "round32 a = Finite a" and az: "a < z"
  shows "round32 z = PosInf \<or> (\<exists>r. round32 z = Finite r \<and> a \<le> r)"
proof -
  from a az have z: "0 < z" by simp
  have ga: "a \<le> fp_grid 24 (- 126) z"
  proof (cases "a = 0")
    case True
    with fp_grid_nonneg [OF z] show ?thesis by simp
  next
    case False
    with a have ap: "0 < a" by simp
    from fa False have "a = fp_grid 24 (- 126) a"
      by (simp add: round32_def fp_round_grid split: if_splits)
    moreover from ap az have "fp_grid 24 (- 126) a \<le> fp_grid 24 (- 126) z"
      by (intro fp_grid_mono) simp_all
    ultimately show ?thesis by simp
  qed
  show ?thesis
  proof (cases "2 powi (127 + 1) \<le> \<bar>fp_grid 24 (- 126) z\<bar>")
    case True
    with z show ?thesis by (simp add: round32_def fp_round_grid)
  next
    case False
    with z ga a show ?thesis by (auto simp: round32_def fp_round_grid)
  qed
qed

lemma round32_NegInf:
  assumes "round32 x = NegInf"
  shows "x \<le> - (2 ^ 128 - 2 ^ 103)"
proof -
  from assms have x0: "x \<noteq> 0" by (auto simp: round32_def fp_round_def)
  from assms x0 have big: "2 powi (127 + 1) \<le> \<bar>fp_grid 24 (- 126) x\<bar>" and xn: "x < 0"
    by (auto simp: round32_def fp_round_grid split: if_splits)
  from xn have "x / 2 powi (max (ilog2 \<bar>x\<bar>) (- 126) - int 24 + 1) \<le> 0"
    by (simp add: divide_nonpos_pos)
  then have "round_even (x / 2 powi (max (ilog2 \<bar>x\<bar>) (- 126) - int 24 + 1)) \<le> round_even 0"
    by (rule round_even_mono)
  then have "round_even (x / 2 powi (max (ilog2 \<bar>x\<bar>) (- 126) - int 24 + 1)) \<le> 0"
    using round_even_of_int [of 0] by simp
  then have "fp_grid 24 (- 126) x \<le> 0"
    unfolding fp_grid_def by (intro mult_nonpos_nonneg) simp_all
  with big have g: "fp_grid 24 (- 126) x \<le> - (2 powi 128)" by simp
  show ?thesis
  proof (cases "128 \<le> ilog2 \<bar>x\<bar>")
    case True
    then have "(2::rat) powi 128 \<le> 2 powi ilog2 \<bar>x\<bar>" by (intro power_int_increasing) simp_all
    with ilog2_bounds(1) [of "\<bar>x\<bar>"] xn have "2 powi 128 \<le> - x" by simp
    then show ?thesis by simp
  next
    case False
    then have "max (ilog2 \<bar>x\<bar>) (- 126) - 24 + 1 \<le> 104" by simp
    then have "(2::rat) powi (max (ilog2 \<bar>x\<bar>) (- 126) - 24 + 1) \<le> 2 powi 104"
      by (intro power_int_increasing) simp_all
    with fp_grid_error [of 24 "- 126" x] have "\<bar>fp_grid 24 (- 126) x - x\<bar> \<le> 2 powi 104 / 2"
      by simp
    with g show ?thesis by simp
  qed
qed

lemma acceptPayment_found:
  assumes "fgets MAX_NAME_LENGTH typed = Some (buffer, rest)"
    and "first_match bs (strip_newline (cstr buffer)) i"
    and "fgets 50 rest = Some (buffer2, rest2)"
  shows "acceptPayment bs typed =
           (if fp_gt (to_float (atof (cstr buffer2))) (amountOwed (bs ! i))
            then (bs, rest2, Some (MoreThanOwed (amountOwed (bs ! i))))
            else (bs[i := (bs ! i)
                    \<lparr>amountOwed := fp_sub round32 (amountOwed (bs ! i))
                                      (to_float (atof (cstr buffer2)))\<rparr>],
                  rest2, None))"
proof -
  from assms(2) have "findBoatByName bs (strip_newline (cstr buffer)) = Some i"
    by (simp only: first_match_find)
  with assms(1,3) show ?thesis by (simp add: acceptPayment_def Let_def)
qed

lemma fp_sub_finite:
  "fp_sub rnd (Finite a) (Finite p) =
     (if a = p then Finite 0 else if p = 0 then Finite a else rnd (a - p))"
  by simp

lemma fp_gt_finite: "fp_gt (Finite p) (Finite a) = (a < p)"
  by (simp add: fp_gt_def)

lemma fp_gt_nan: "\<not> fp_gt (NaN s) v" "\<not> fp_gt v (NaN s)"
  by (simp_all add: fp_gt_def)

text \<open>
  Claim C4, as stated, fails: paying an amount equal to the amount owed does not leave
  0 when both are infinite; the difference of two equal infinities is a NaN. A boat
  comes to owe an infinite amount by a line that says so.
\<close>

theorem equal_infinite_payment_leaves_nan:
  "addBoat [] ''Alice,20,slip,5,inf'' = ([alice\<lparr>amountOwed := PosInf\<rparr>], None) \<and>
   to_float (atof (cstr (''inf'' @ [newline]))) = PosInf \<and>
   \<not> fp_gt PosInf PosInf \<and>
   acceptPayment [alice\<lparr>amountOwed := PosInf\<rparr>] pay_inf =
     ([alice\<lparr>amountOwed := NaN True\<rparr>], [], None)"
  by code_simp

text \<open>
  Claim C4, amended. acceptPayment reads a name and an amount; the boat is the first
  whose name is the typed one up to letter case, the amount what atof reads, as a
  float. If the amount exceeds the amount owed, in the comparison of floats, the boats
  stay as they are and the report is the amount owed, printed with two decimals.
  Otherwise the amount owed of that boat becomes the float difference of the amount
  owed and the amount, and nothing else changes. Of two numbers the first exceeds the
  second when it is greater; a NaN neither exceeds anything nor is exceeded. The float
  difference of two equal numbers is 0; a number less 0 is that number; and the float
  difference of two other numbers is their difference \<open>x\<close> rounded to single precision:
  when that is a number, it is within \<open>\<bar>x\<bar> / 2 ^ 24\<close> or \<open>1 / 2 ^ 150\<close> of \<open>x\<close>; it is
  \<open>x\<close> itself when \<open>x\<close> is \<open>m * 2 ^ e\<close> with \<open>\<bar>m\<bar> < 2 ^ 24\<close> and \<open>e\<close> from -149 to 104; and
  it is an infinity only when the magnitude of \<open>x\<close> is \<open>2 ^ 128 - 2 ^ 103\<close> or more. The
  float difference of an infinity and itself is a NaN.
\<close>

theorem acceptPayment_checks_amount:
  "(fgets MAX_NAME_LENGTH typed = Some (buffer, rest) \<and>
    first_match bs (strip_newline (cstr buffer)) i \<and>
    fgets 50 rest = Some (buffer2, rest2) \<longrightarrow>
      acceptPayment bs typed =
        (if fp_gt (to_float (atof (cstr buffer2))) (amountOwed (bs ! i))
         then (bs, rest2, Some (MoreThanOwed (amountOwed (bs ! i))))
         else (bs[i := (bs ! i)
                 \<lparr>amountOwed := fp_sub round32 (amountOwed (bs ! i))
                                   (to_float (atof (cstr buffer2)))\<rparr>],
               rest2, None))) \<and>
   report_text (MoreThanOwed v) =
     ''That is more than the amount owed, $'' @ printf_f 2 v @ [newline, newline] \<and>
   fp_gt (Finite p) (Finite a) = (a < p) \<and>
   \<not> fp_gt (NaN s) v \<and> \<not> fp_gt v (NaN s) \<and>
   fp_sub round32 (Finite a) (Finite p) =
     (if a = p then Finite 0 else if p = 0 then Finite a else round32 (a - p)) \<and>
   (round32 x = Finite r \<longrightarrow> \<bar>r - x\<bar> \<le> max (\<bar>x\<bar> / 2 ^ 24) (1 / 2 ^ 150)) \<and>
   (\<bar>m\<bar> < 2 ^ 24 \<and> - 149 \<le> e \<and> e \<le> 104 \<longrightarrow>
      round32 (of_int m * 2 powi e) = Finite (of_int m * 2 powi e)) \<and>
   (round32 x = PosInf \<longrightarrow> 2 ^ 128 - 2 ^ 103 \<le> x) \<and>
   (round32 x = NegInf \<longrightarrow> x \<le> - (2 ^ 128 - 2 ^ 103)) \<and>
   fp_sub round32 PosInf PosInf = NaN True \<and>
   fp_sub round32 NegInf NegInf = NaN True"
proof (intro conjI impI)
  assume "fgets MAX_NAME_LENGTH typed = Some (buffer, rest) \<and>
    first_match bs (strip_newline (cstr buffer)) i \<and>
    fgets 50 rest = Some (buffer2, rest2)"
  then show "acceptPayment bs typed =
        (if fp_gt (to_float (atof (cstr buffer2))) (amountOwed (bs ! i))
         then (bs, rest2, Some (MoreThanOwed (amountOwed (bs ! i))))
         else (bs[i := (bs ! i)
                 \<lparr>amountOwed := fp_sub round32 (amountOwed (bs ! i))
                                   (to_float (atof (cstr buffer2)))\<rparr>],
               rest2, None))"
    by (intro acceptPayment_found [of typed buffer rest bs i buffer2 rest2]) simp_all
next
  show "report_text (MoreThanOwed v) =
     ''That is more than the amount owed, $'' @ printf_f 2 v @ [newline, newline]"
    by simp
next
  show "fp_gt (Finite p) (Finite a) = (a < p)" by (rule fp_gt_finite)
next
  show "\<not> fp_gt (NaN s) v" by (rule fp_gt_nan)
next
  show "\<not> fp_gt v (NaN s)" by (rule fp_gt_nan)
next
  show "fp_sub round32 (Finite a) (Finite p) =
     (if a = p then Finite 0 else if p = 0 then Finite a else round32 (a - p))"
    by (rule fp_sub_finite)
next
  assume "round32 x = Finite r"
  then show "\<bar>r - x\<bar> \<le> max (\<bar>x\<bar> / 2 ^ 24) (1 / 2 ^ 150)" by (rule round32_error)
next
  assume "\<bar>m\<bar> < 2 ^ 24 \<and> - 149 \<le> e \<and> e \<le> 104"
  then show "round32 (of_int m * 2 powi e) = Finite (of_int m * 2 powi e)"
    by (intro round32_exact) simp_all
next
  assume "round32 x = PosInf"
  then show "2 ^ 128 - 2 ^ 103 \<le> x" by (rule round32_PosInf)
next
  assume "round32 x = NegInf"
  then show "x \<le> - (2 ^ 128 - 2 ^ 103)" by (rule round32_NegInf)
next
  show "fp_sub round32 PosInf PosInf = NaN True" by simp
next
  show "fp_sub round32 NegInf NegInf = NaN True" by simp
qed

theorem acceptPayment_checks_amount_witness:
  "fgets MAX_NAME_LENGTH pay_partial = Some (''ALICE'' @ [newline], ''40'' @ [newline]) \<and>
   first_match [alice, bob] (strip_newline (cstr (''ALICE'' @ [newline]))) 0 \<and>
   fgets 50 (''40'' @ [newline]) = Some (''40'' @ [newline], []) \<and>
   acceptPayment [alice, bob] pay_partial = ([alice\<lparr>amountOwed := Finite 60\<rparr>, bob], [], None) \<and>
   acceptPayment [alice, bob] pay_exact = ([alice\<lparr>amountOwed := Finite 0\<rparr>, bob], [], None) \<and>
   acceptPayment [alice, bob] pay_too_much = ([alice, bob], [], Some (MoreThanOwed (Finite 100))) \<and>
   report_text (MoreThanOwed (Finite 100)) =
     ''That is more than the amount owed, $100.00'' @ [newline, newline] \<and>
   round32 (1 / 10) = Finite (13421773 / 134217728) \<and>
   \<bar>13421773 / 134217728 - 1 / 10 :: rat\<bar> \<le> 1 / 10 / 2 ^ 24 \<and>
   round32 60 = Finite 60 \<and>
   round32 (2 ^ 128) = PosInf \<and> round32 (- (2 ^ 128)) = NegInf"
proof -
  have n: "\<And>t. fgets MAX_NAME_LENGTH (''ALICE'' @ [newline] @ t) = Some (''ALICE'' @ [newline], t)"
    by (simp add: fgets_def fgets_read.simps MAX_NAME_LENGTH_def newline_def)
  have "findBoatByName [alice, bob] (strip_newline (cstr (''ALICE'' @ [newline]))) = Some 0"
    by code_simp
  then have g: "first_match [alice, bob] (strip_newline (cstr (''ALICE'' @ [newline]))) 0"
    by (simp only: first_match_find)
  have f1: "fgets MAX_NAME_LENGTH pay_partial = Some (''ALICE'' @ [newline], ''40'' @ [newline])"
    by code_simp
  have f2: "fgets MAX_NAME_LENGTH pay_exact = Some (''ALICE'' @ [newline], ''100.00'' @ [newline])"
    by code_simp
  have f3: "fgets MAX_NAME_LENGTH pay_too_much = Some (''ALICE'' @ [newline], ''100.01'' @ [newline])"
    by code_simp
  have h1: "fgets 50 (''40'' @ [newline]) = Some (''40'' @ [newline], [])" by code_simp
  have h2: "fgets 50 (''100.00'' @ [newline]) = Some (''100.00'' @ [newline], [])" by code_simp
  have h3: "fgets 50 (''100.01'' @ [newline]) = Some (''100.01'' @ [newline], [])" by code_simp
  have p1: "to_float (atof (cstr (''40'' @ [newline]))) = Finite 40" by code_simp
  have p2: "to_float (atof (cstr (''100.00'' @ [newline]))) = Finite 100" by code_simp
  have p3: "to_float (atof (cstr (''100.01'' @ [newline]))) = Finite (13108511 / 131072)"
    by code_simp
  have o: "amountOwed ([alice, bob] ! 0) = Finite 100" by code_simp
  have u: "\<And>v. [alice, bob][0 := ([alice, bob] ! 0)\<lparr>amountOwed := v\<rparr>] = [alice\<lparr>amountOwed := v\<rparr>, bob]"
    by simp
  note t = acceptPayment_checks_amount
  have e60: "round32 (of_int 60 * 2 powi 0) = Finite (of_int 60 * 2 powi 0)"
    using t [where m = 60 and e = 0] by simp
  then have r60: "round32 60 = Finite 60" by simp
  have s60: "fp_sub round32 (Finite 100) (Finite 40) = Finite 60"
    using t [where a = 100 and p = 40] r60 by simp
  have s0: "fp_sub round32 (Finite 100) (Finite 100) = Finite 0"
    using t [where a = 100 and p = 100] by simp
  have c1: "\<not> fp_gt (Finite 40) (Finite 100)" using t [where p = 40 and a = 100] by simp
  have c2: "\<not> fp_gt (Finite 100) (Finite 100)" using t [where p = 100 and a = 100] by simp
  have c3: "fp_gt (Finite (13108511 / 131072)) (Finite 100)"
    using t [where p = "13108511 / 131072" and a = 100] by simp
  have a1: "acceptPayment [alice, bob] pay_partial = ([alice\<lparr>amountOwed := Finite 60\<rparr>, bob], [], None)"
    using t [where typed = pay_partial and buffer = "''ALICE'' @ [newline]"
        and rest = "''40'' @ [newline]" and bs = "[alice, bob]" and i = 0
        and ?buffer2.0 = "''40'' @ [newline]" and ?rest2.0 = "[]"] f1 g h1
    by (simp only: p1 o c1 s60 u if_False simp_thms)
  have a2: "acceptPayment [alice, bob] pay_exact = ([alice\<lparr>amountOwed := Finite 0\<rparr>, bob], [], None)"
    using t [where typed = pay_exact and buffer = "''ALICE'' @ [newline]"
        and rest = "''100.00'' @ [newline]" and bs = "[alice, bob]" and i = 0
        and ?buffer2.0 = "''100.00'' @ [newline]" and ?rest2.0 = "[]"] f2 g h2
    by (simp only: p2 o c2 s0 u if_False simp_thms)
  have a3: "acceptPayment [alice, bob] pay_too_much = ([alice, bob], [], Some (MoreThanOwed (Finite 100)))"
    using t [where typed = pay_too_much and buffer = "''ALICE'' @ [newline]"
        and rest = "''100.01'' @ [newline]" and bs = "[alice, bob]" and i = 0
        and ?buffer2.0 = "''100.01'' @ [newline]" and ?rest2.0 = "[]"] f3 g h3
    by (simp only: p3 o c3 if_True simp_thms)
  have pr: "printf_f 2 (Finite 100) = ''100.00''" by code_simp
  have a4b: "report_text (MoreThanOwed (Finite 100)) =
     ''That is more than the amount owed, $'' @ printf_f 2 (Finite 100) @ [newline, newline]"
    by (rule t [where v = "Finite 100", THEN conjunct2, THEN conjunct1])
  have a4: "report_text (MoreThanOwed (Finite 100)) =
     ''That is more than the amount owed, $100.00'' @ [newline, newline]"
    unfolding a4b pr by simp
  have r10: "round32 (1 / 10) = Finite (13421773 / 134217728)" by code_simp
  have a5: "\<bar>13421773 / 134217728 - 1 / 10 :: rat\<bar> \<le> 1 / 10 / 2 ^ 24"
    using t [where x = "1 / 10" and r = "13421773 / 134217728"] r10 by simp
  have i1: "round32 (2 ^ 128) = PosInf" by code_simp
  have i2: "round32 (- (2 ^ 128)) = NegInf" by code_simp
  from f1 g h1 a1 a2 a3 a4 r10 a5 r60 i1 i2 show ?thesis by (intro conjI)
qed

lemma negative_payment_cases:
  assumes f: "is_float owed" and o: "fp_ge owed (Finite 0)" and p: "fp_gt (Finite 0) pay"
  shows "\<not> fp_gt pay owed" and "fp_ge (fp_sub round32 owed pay) owed"
proof -
  from p consider (fin) q where "pay = Finite q" "q < 0" | (inf) "pay = NegInf"
    by (cases pay) (auto simp: fp_gt_def)
  note pc = this
  from o consider (ofin) a where "owed = Finite a" "0 \<le> a" | (ozero) "owed = NegZero"
    | (oinf) "owed = PosInf"
    by (cases owed) (auto simp: fp_ge_def fp_gt_def)
  note oc = this
  show "\<not> fp_gt pay owed"
    by (rule pc; rule oc) (simp_all add: fp_gt_def)
  show "fp_ge (fp_sub round32 owed pay) owed"
  proof (rule pc)
    assume i: "pay = NegInf"
    show ?thesis by (rule oc) (simp_all add: i fp_ge_def fp_gt_def)
  next
    fix q assume q: "pay = Finite q" "q < 0"
    show ?thesis
    proof (rule oc)
      assume "owed = NegZero"
      with q show ?thesis by (simp add: fp_ge_def fp_gt_def)
    next
      assume "owed = PosInf"
      with q show ?thesis by (simp add: fp_ge_def fp_gt_def)
    next
      fix a assume a: "owed = Finite a" "0 \<le> a"
      with f have fa: "round32 a = Finite a" by (simp add: is_float_def)
      from q have lt: "a < a - q" by simp
      from a q have s: "fp_sub round32 owed pay = round32 (a - q)" by simp
      from round32_not_below [OF a(2) fa lt] have "fp_ge (round32 (a - q)) (Finite a)"
        by (auto simp: fp_ge_def fp_gt_def)
      with s a(1) show ?thesis by (simp only:)
    qed
  qed
qed

text \<open>
  Claim C10, as stated, fails: a negative payment is accepted, but the float
  subtraction can absorb it, and then the amount owed does not increase.
\<close>

theorem negative_payment_absorbed:
  "to_float (atof ''-0.01'') = Finite (- (5368709 / 536870912)) \<and>
   acceptPayment [alice\<lparr>amountOwed := Finite 300000\<rparr>] pay_negative
     = ([alice\<lparr>amountOwed := Finite 300000\<rparr>], [], None)"
  by code_simp

text \<open>
  Claim C10, amended. Let the first boat with the typed name owe a float that is
  \<open>>= 0\<close>: a number that is not negative, the negative zero or the positive infinity;
  and let the payment be \<open>< 0\<close>: a negative number or the negative infinity. Then the
  payment is not refused; the amount owed becomes the float difference, which is
  \<open>>=\<close> the amount owed before, and so no NaN. It is the positive infinity when the
  amount owed was that or the payment is the negative infinity; the payment negated
  when the amount owed was the negative zero; and otherwise the difference rounded to
  single precision, which is greater than the amount owed before when the difference
  needs no rounding, and can be the same when it does.
\<close>

theorem negative_payment_accepted:
  "fgets MAX_NAME_LENGTH typed = Some (buffer, rest) \<and>
   first_match bs (strip_newline (cstr buffer)) i \<and>
   fgets 50 rest = Some (buffer2, rest2) \<and>
   owed = amountOwed (bs ! i) \<and> pay = to_float (atof (cstr buffer2)) \<and>
   is_float owed \<and> fp_ge owed (Finite 0) \<and> fp_gt (Finite 0) pay \<longrightarrow>
     acceptPayment bs typed =
       (bs[i := (bs ! i)\<lparr>amountOwed := fp_sub round32 owed pay\<rparr>], rest2, None) \<and>
     fp_ge (fp_sub round32 owed pay) owed \<and>
     (owed = PosInf \<or> pay = NegInf \<longrightarrow> fp_sub round32 owed pay = PosInf) \<and>
     (owed = NegZero \<and> pay = Finite p \<longrightarrow> fp_sub round32 owed pay = Finite (- p)) \<and>
     (owed = Finite a \<and> pay = Finite p \<longrightarrow>
        fp_sub round32 owed pay = round32 (a - p) \<and>
        (round32 (a - p) = Finite (a - p) \<longrightarrow> fp_gt (fp_sub round32 owed pay) owed))"
proof (intro impI)
  assume h: "fgets MAX_NAME_LENGTH typed = Some (buffer, rest) \<and>
   first_match bs (strip_newline (cstr buffer)) i \<and>
   fgets 50 rest = Some (buffer2, rest2) \<and>
   owed = amountOwed (bs ! i) \<and> pay = to_float (atof (cstr buffer2)) \<and>
   is_float owed \<and> fp_ge owed (Finite 0) \<and> fp_gt (Finite 0) pay"
  then have f: "is_float owed" and o: "fp_ge owed (Finite 0)" and p: "fp_gt (Finite 0) pay"
    by blast+
  note c = negative_payment_cases [OF f o p]
  from h have "acceptPayment bs typed =
           (if fp_gt pay owed
            then (bs, rest2, Some (MoreThanOwed owed))
            else (bs[i := (bs ! i)\<lparr>amountOwed := fp_sub round32 owed pay\<rparr>], rest2, None))"
    using acceptPayment_found [of typed buffer rest bs i buffer2 rest2] by simp
  with c(1) have 1: "acceptPayment bs typed =
       (bs[i := (bs ! i)\<lparr>amountOwed := fp_sub round32 owed pay\<rparr>], rest2, None)"
    by simp
  have 3: "owed = PosInf \<or> pay = NegInf \<longrightarrow> fp_sub round32 owed pay = PosInf"
    using o p by (cases owed; cases pay) (simp_all add: fp_ge_def fp_gt_def)
  have 4: "owed = NegZero \<and> pay = Finite p \<longrightarrow> fp_sub round32 owed pay = Finite (- p)"
    using p by (auto simp: fp_gt_def)
  have 5: "owed = Finite a \<and> pay = Finite p \<longrightarrow>
        fp_sub round32 owed pay = round32 (a - p) \<and>
        (round32 (a - p) = Finite (a - p) \<longrightarrow> fp_gt (fp_sub round32 owed pay) owed)"
    using o p by (auto simp: fp_ge_def fp_gt_def)
  from 1 c(2) 3 4 5 show "acceptPayment bs typed =
       (bs[i := (bs ! i)\<lparr>amountOwed := fp_sub round32 owed pay\<rparr>], rest2, None) \<and>
     fp_ge (fp_sub round32 owed pay) owed \<and>
     (owed = PosInf \<or> pay = NegInf \<longrightarrow> fp_sub round32 owed pay = PosInf) \<and>
     (owed = NegZero \<and> pay = Finite p \<longrightarrow> fp_sub round32 owed pay = Finite (- p)) \<and>
     (owed = Finite a \<and> pay = Finite p \<longrightarrow>
        fp_sub round32 owed pay = round32 (a - p) \<and>
        (round32 (a - p) = Finite (a - p) \<longrightarrow> fp_gt (fp_sub round32 owed pay) owed))"
    by (intro conjI)
qed

theorem negative_payment_accepted_witness:
  "fgets MAX_NAME_LENGTH pay_minus_40 = Some (''ALICE'' @ [newline], ''-40'' @ [newline]) \<and>
   first_match [alice, bob] (strip_newline (cstr (''ALICE'' @ [newline]))) 0 \<and>
   fgets 50 (''-40'' @ [newline]) = Some (''-40'' @ [newline], []) \<and>
   to_float (atof (cstr (''-40'' @ [newline]))) = Finite (- 40) \<and>
   is_float (Finite 100) \<and> fp_ge (Finite 100) (Finite 0) \<and> fp_gt (Finite 0) (Finite (- 40)) \<and>
   acceptPayment [alice, bob] pay_minus_40 = ([alice\<lparr>amountOwed := Finite 140\<rparr>, bob], [], None) \<and>
   fp_gt (Finite 140) (Finite 100) \<and>
   fgets 50 (''-inf'' @ [newline]) = Some (''-inf'' @ [newline], []) \<and>
   to_float (atof (cstr (''-inf'' @ [newline]))) = NegInf \<and>
   fp_gt (Finite 0) NegInf \<and>
   acceptPayment [alice, bob] pay_minus_inf = ([alice\<lparr>amountOwed := PosInf\<rparr>, bob], [], None)"
proof -
  have "findBoatByName [alice, bob] (strip_newline (cstr (''ALICE'' @ [newline]))) = Some 0"
    by code_simp
  then have g: "first_match [alice, bob] (strip_newline (cstr (''ALICE'' @ [newline]))) 0"
    by (simp only: first_match_find)
  have f1: "fgets MAX_NAME_LENGTH pay_minus_40 = Some (''ALICE'' @ [newline], ''-40'' @ [newline])"
    by code_simp
  have f2: "fgets MAX_NAME_LENGTH pay_minus_inf = Some (''ALICE'' @ [newline], ''-inf'' @ [newline])"
    by code_simp
  have h1: "fgets 50 (''-40'' @ [newline]) = Some (''-40'' @ [newline], [])" by code_simp
  have h2: "fgets 50 (''-inf'' @ [newline]) = Some (''-inf'' @ [newline], [])" by code_simp
  have p1: "to_float (atof (cstr (''-40'' @ [newline]))) = Finite (- 40)" by code_simp
  have p2: "to_float (atof (cstr (''-inf'' @ [newline]))) = NegInf" by code_simp
  have o: "amountOwed ([alice, bob] ! 0) = Finite 100" by code_simp
  have fl: "is_float (Finite 100)" by code_simp
  have ge: "fp_ge (Finite 100) (Finite 0)" by code_simp
  have n1: "fp_gt (Finite 0) (Finite (- 40))" by code_simp
  have n2: "fp_gt (Finite 0) NegInf" by code_simp
  have r: "round32 (100 - (- 40)) = Finite (100 - (- 40))" by code_simp
  have e: "(100 - (- 40) :: rat) = 140" by simp
  have u: "\<And>v. [alice, bob][0 := ([alice, bob] ! 0)\<lparr>amountOwed := v\<rparr>] = [alice\<lparr>amountOwed := v\<rparr>, bob]"
    by simp
  note t1 = negative_payment_accepted [where typed = pay_minus_40
      and buffer = "''ALICE'' @ [newline]" and rest = "''-40'' @ [newline]"
      and bs = "[alice, bob]" and i = 0 and ?buffer2.0 = "''-40'' @ [newline]"
      and ?rest2.0 = "[]" and owed = "Finite 100" and pay = "Finite (- 40)"
      and a = 100 and p = "- 40"]
  have y1: "fgets MAX_NAME_LENGTH pay_minus_40 = Some (''ALICE'' @ [newline], ''-40'' @ [newline]) \<and>
     first_match [alice, bob] (strip_newline (cstr (''ALICE'' @ [newline]))) 0 \<and>
     fgets 50 (''-40'' @ [newline]) = Some (''-40'' @ [newline], []) \<and>
     Finite 100 = amountOwed ([alice, bob] ! 0) \<and>
     Finite (- 40) = to_float (atof (cstr (''-40'' @ [newline]))) \<and>
     is_float (Finite 100) \<and> fp_ge (Finite 100) (Finite 0) \<and> fp_gt (Finite 0) (Finite (- 40))"
    using f1 g h1 o [symmetric] p1 [symmetric] fl ge n1 by (intro conjI)
  note r1 = t1 [THEN mp, OF y1]
  note c1 = r1 [THEN conjunct1]
  note c5 = r1 [THEN conjunct2, THEN conjunct2, THEN conjunct2, THEN conjunct2, THEN mp,
      OF conjI [OF refl refl]]
  note c2 = c5 [THEN conjunct1]
  note c3 = c5 [THEN conjunct2]
  from c2 r e have s: "fp_sub round32 (Finite 100) (Finite (- 40)) = Finite 140" by (simp only:)
  from c1 have a1: "acceptPayment [alice, bob] pay_minus_40 =
      ([alice\<lparr>amountOwed := Finite 140\<rparr>, bob], [], None)"
    by (simp only: s u)
  from c3 [THEN mp, OF r] have a2: "fp_gt (Finite 140) (Finite 100)" by (simp only: s)
  note t2 = negative_payment_accepted [where typed = pay_minus_inf
      and buffer = "''ALICE'' @ [newline]" and rest = "''-inf'' @ [newline]"
      and bs = "[alice, bob]" and i = 0 and ?buffer2.0 = "''-inf'' @ [newline]"
      and ?rest2.0 = "[]" and owed = "Finite 100" and pay = NegInf]
  have y2: "fgets MAX_NAME_LENGTH pay_minus_inf = Some (''ALICE'' @ [newline], ''-inf'' @ [newline]) \<and>
     first_match [alice, bob] (strip_newline (cstr (''ALICE'' @ [newline]))) 0 \<and>
     fgets 50 (''-inf'' @ [newline]) = Some (''-inf'' @ [newline], []) \<and>
     Finite 100 = amountOwed ([alice, bob] ! 0) \<and>
     NegInf = to_float (atof (cstr (''-inf'' @ [newline]))) \<and>
     is_float (Finite 100) \<and> fp_ge (Finite 100) (Finite 0) \<and> fp_gt (Finite 0) NegInf"
    using f2 g h2 o [symmetric] p2 [symmetric] fl ge n2 by (intro conjI)
  note r2 = t2 [THEN mp, OF y2]
  note d1 = r2 [THEN conjunct1]
  note d2 = r2 [THEN conjunct2, THEN conjunct2, THEN conjunct1, THEN mp, OF disjI2 [OF refl]]
  from d1 have a3: "acceptPayment [alice, bob] pay_minus_inf =
      ([alice\<lparr>amountOwed := PosInf\<rparr>, bob], [], None)"
    by (simp only: d2 u)
  from f1 g h1 p1 fl ge n1 a1 a2 h2 p2 n2 a3 show ?thesis by (intro conjI)
qed

section \<open>updateMonthlyCharges\<close>

lemma monthlyCharge_rate:
  "monthlyCharge b = to_float (fp_mul round64 (length_ft b) (rate (locationType (location b))))"
  by (cases "locationType (location b)") (simp_all add: monthlyCharge_def)

lemma length_updateMonthlyCharges: "length (updateMonthlyCharges bs) = length bs"
  by (simp add: updateMonthlyCharges_def)

lemma nth_updateMonthlyCharges:
  "i < length bs \<Longrightarrow>
   updateMonthlyCharges bs ! i =
     (bs ! i)\<lparr>amountOwed :=
        fp_add round32 (amountOwed (bs ! i))
          (to_float (fp_mul round64 (length_ft (bs ! i)) (rate (locationType (location (bs ! i))))))\<rparr>"
  by (simp add: updateMonthlyCharges_def charge_boat_def monthlyCharge_rate)

lemma rates:
  "rate SLIP = Finite (25 / 2)" "rate LAND = Finite 14" "rate TRAILOR = Finite 25"
  "rate STORAGE = Finite (3152519739159347 / 281474976710656)"
  by code_simp+

lemma charges:
  "to_float (fp_mul round64 (Finite 30) (rate SLIP)) = Finite 375"
  "to_float (fp_mul round64 (Finite 10) (rate LAND)) = Finite 140"
  "to_float (fp_mul round64 (Finite 16) (rate TRAILOR)) = Finite 400"
  "to_float (fp_mul round64 (Finite 20) (rate STORAGE)) = Finite 224"
  by code_simp+

lemma fp_mul_finite:
  "fp_mul rnd (Finite x) (Finite y) =
     (if x * y = 0 then (if (x < 0) \<noteq> (y < 0) then NegZero else Finite 0) else rnd (x * y))"
  by simp

lemma fp_add_finite:
  "fp_add rnd (Finite a) (Finite c) = (if a + c = 0 then Finite 0 else rnd (a + c))"
  by simp

lemma charge_boat_exact:
  assumes "amountOwed b = Finite a" "monthlyCharge b = Finite c" "round32 (a + c) = Finite (a + c)"
  shows "amountOwed (charge_boat b) = Finite (a + c)"
  using assms by (simp add: charge_boat_def)

text \<open>
  Claim C3, as stated, fails: the amounts are floats. The rate 11.20 is no double, and
  a storage boat of length 1 that owes nothing is charged the float nearest to it, not
  11.20; and a slip boat of length 30 that owes 100.10 is charged 375 but gains a
  little more, because the sum is rounded to single precision.
\<close>

theorem monthly_charge_is_rounded:
  "updateMonthlyCharges [boat_at (Storage 7) 1 (Finite 0)] =
     [boat_at (Storage 7) 1 (Finite (11744051 / 1048576))] \<and>
   (11744051 / 1048576 :: rat) \<noteq> 1 * (56 / 5) \<and>
   fst (loadBoatData ''boats.csv'' (Some (''Horizon,30,slip,5,100.10'' @ [newline])) []) =
     [boat_at (Slip 5) 30 (Finite (13120307 / 131072))] \<and>
   updateMonthlyCharges [boat_at (Slip 5) 30 (Finite (13120307 / 131072))] =
     [boat_at (Slip 5) 30 (Finite (15568077 / 32768))] \<and>
   (15568077 / 32768 - 13120307 / 131072 :: rat) \<noteq> 375"
  by code_simp

text \<open>
  Claim C3, amended. updateMonthlyCharges keeps the number and the order of the boats
  and changes of each boat only the amount owed, to which it adds the charge, as
  floats. The charge is the product of the length and the rate of the kind of
  location, as doubles, stored in a float. The rates are 12.50, 14.00 and 25.00 for
  slip, land and trailor, and the double nearest to 11.20 for storage. The product
  of two numbers is the zero of their signs when it is zero and otherwise rounded to
  double precision, a number stored in a float is rounded to single precision, and
  the sum of two numbers is the positive zero when it is zero and otherwise rounded
  to single precision. A rounded number \<open>x\<close>, when it is a number, is within
  \<open>\<bar>x\<bar> / 2 ^ 53\<close> or \<open>1 / 2 ^ 1075\<close> of \<open>x\<close> in double and within \<open>\<bar>x\<bar> / 2 ^ 24\<close> or
  \<open>1 / 2 ^ 150\<close> of \<open>x\<close> in single precision; it is \<open>x\<close> itself when \<open>x\<close> is \<open>m * 2 ^ e\<close> with
  \<open>\<bar>m\<bar> < 2 ^ 53\<close> and \<open>e\<close> from -1074 to 971 in double, with \<open>\<bar>m\<bar> < 2 ^ 24\<close> and \<open>e\<close> from
  -149 to 104 in single precision. The charge of a slip boat of length 30 is 375, of
  a land boat of length 10 it is 140, of a trailor boat of length 16 it is 400, of a
  storage boat of length 20 it is 224; and a boat gains its charge when the sum of the
  amount owed and the charge needs no rounding.
\<close>

theorem monthly_charges_added:
  "length (updateMonthlyCharges bs) = length bs \<and>
   (i < length bs \<longrightarrow>
      updateMonthlyCharges bs ! i =
        (bs ! i)\<lparr>amountOwed := fp_add round32 (amountOwed (bs ! i)) (monthlyCharge (bs ! i))\<rparr>) \<and>
   monthlyCharge b =
     to_float (fp_mul round64 (length_ft b) (rate (locationType (location b)))) \<and>
   rate SLIP = Finite (25 / 2) \<and> rate LAND = Finite 14 \<and> rate TRAILOR = Finite 25 \<and>
   rate STORAGE = round64 (56 / 5) \<and>
   fp_mul round64 (Finite x) (Finite y) =
     (if x * y = 0 then (if (x < 0) \<noteq> (y < 0) then NegZero else Finite 0)
      else round64 (x * y)) \<and>
   to_float (Finite x) = round32 x \<and>
   fp_add round32 (Finite a) (Finite c) = (if a + c = 0 then Finite 0 else round32 (a + c)) \<and>
   (round64 x = Finite r \<longrightarrow> \<bar>r - x\<bar> \<le> max (\<bar>x\<bar> / 2 ^ 53) (1 / 2 ^ 1075)) \<and>
   (\<bar>m\<bar> < 2 ^ 53 \<and> - 1074 \<le> e \<and> e \<le> 971 \<longrightarrow>
      round64 (of_int m * 2 powi e) = Finite (of_int m * 2 powi e)) \<and>
   (round32 x = Finite r \<longrightarrow> \<bar>r - x\<bar> \<le> max (\<bar>x\<bar> / 2 ^ 24) (1 / 2 ^ 150)) \<and>
   (\<bar>m\<bar> < 2 ^ 24 \<and> - 149 \<le> e \<and> e \<le> 104 \<longrightarrow>
      round32 (of_int m * 2 powi e) = Finite (of_int m * 2 powi e)) \<and>
   (locationType (location b) = SLIP \<and> length_ft b = Finite 30 \<longrightarrow>
      monthlyCharge b = Finite 375) \<and>
   (locationType (location b) = LAND \<and> length_ft b = Finite 10 \<longrightarrow>
      monthlyCharge b = Finite 140) \<and>
   (locationType (location b) = TRAILOR \<and> length_ft b = Finite 16 \<longrightarrow>
      monthlyCharge b = Finite 400) \<and>
   (locationType (location b) = STORAGE \<and> length_ft b = Finite 20 \<longrightarrow>
      monthlyCharge b = Finite 224) \<and>
   (amountOwed b = Finite a \<and> monthlyCharge b = Finite c \<and>
    round32 (a + c) = Finite (a + c) \<longrightarrow>
      amountOwed (charge_boat b) = Finite (a + c) \<and>
      updateMonthlyCharges [b] = [b\<lparr>amountOwed := Finite (a + c)\<rparr>])"
proof (intro conjI impI)
  show "length (updateMonthlyCharges bs) = length bs" by (rule length_updateMonthlyCharges)
next
  assume "i < length bs"
  then show "updateMonthlyCharges bs ! i =
        (bs ! i)\<lparr>amountOwed := fp_add round32 (amountOwed (bs ! i)) (monthlyCharge (bs ! i))\<rparr>"
    by (simp add: updateMonthlyCharges_def charge_boat_def)
next
  show "monthlyCharge b =
     to_float (fp_mul round64 (length_ft b) (rate (locationType (location b))))"
    by (rule monthlyCharge_rate)
next
  show "rate SLIP = Finite (25 / 2)" by (rule rates)
next
  show "rate LAND = Finite 14" by (rule rates)
next
  show "rate TRAILOR = Finite 25" by (rule rates)
next
  show "rate STORAGE = round64 (56 / 5)" by (simp add: STORAGE_RATE_def)
next
  show "fp_mul round64 (Finite x) (Finite y) =
     (if x * y = 0 then (if (x < 0) \<noteq> (y < 0) then NegZero else Finite 0)
      else round64 (x * y))"
    by (rule fp_mul_finite)
next
  show "to_float (Finite x) = round32 x" by simp
next
  show "fp_add round32 (Finite a) (Finite c) = (if a + c = 0 then Finite 0 else round32 (a + c))"
    by (rule fp_add_finite)
next
  assume "round64 x = Finite r"
  then show "\<bar>r - x\<bar> \<le> max (\<bar>x\<bar> / 2 ^ 53) (1 / 2 ^ 1075)" by (rule round64_error)
next
  assume "\<bar>m\<bar> < 2 ^ 53 \<and> - 1074 \<le> e \<and> e \<le> 971"
  then show "round64 (of_int m * 2 powi e) = Finite (of_int m * 2 powi e)"
    by (intro round64_exact) simp_all
next
  assume "round32 x = Finite r"
  then show "\<bar>r - x\<bar> \<le> max (\<bar>x\<bar> / 2 ^ 24) (1 / 2 ^ 150)" by (rule round32_error)
next
  assume "\<bar>m\<bar> < 2 ^ 24 \<and> - 149 \<le> e \<and> e \<le> 104"
  then show "round32 (of_int m * 2 powi e) = Finite (of_int m * 2 powi e)"
    by (intro round32_exact) simp_all
next
  assume "locationType (location b) = SLIP \<and> length_ft b = Finite 30"
  then show "monthlyCharge b = Finite 375" by (simp only: monthlyCharge_rate charges)
next
  assume "locationType (location b) = LAND \<and> length_ft b = Finite 10"
  then show "monthlyCharge b = Finite 140" by (simp only: monthlyCharge_rate charges)
next
  assume "locationType (location b) = TRAILOR \<and> length_ft b = Finite 16"
  then show "monthlyCharge b = Finite 400" by (simp only: monthlyCharge_rate charges)
next
  assume "locationType (location b) = STORAGE \<and> length_ft b = Finite 20"
  then show "monthlyCharge b = Finite 224" by (simp only: monthlyCharge_rate charges)
next
  assume h: "amountOwed b = Finite a \<and> monthlyCharge b = Finite c \<and>
    round32 (a + c) = Finite (a + c)"
  then show 1: "amountOwed (charge_boat b) = Finite (a + c)"
    by (intro charge_boat_exact [of b a c]) simp_all
  from h show "updateMonthlyCharges [b] = [b\<lparr>amountOwed := Finite (a + c)\<rparr>]"
    by (simp add: updateMonthlyCharges_def charge_boat_def)
qed

theorem monthly_charges_added_witness:
  "updateMonthlyCharges [alice, bob] ! 0 = alice\<lparr>amountOwed := Finite 350\<rparr> \<and>
   updateMonthlyCharges [alice, bob] ! 1 = bob\<lparr>amountOwed := Finite 260\<rparr> \<and>
   monthlyCharge (boat_at (Slip 5) 30 (Finite 0)) = Finite 375 \<and>
   monthlyCharge (boat_at (Land (CHR ''B'')) 10 (Finite 0)) = Finite 140 \<and>
   monthlyCharge (boat_at (Trailor ''TX1234'') 16 (Finite 0)) = Finite 400 \<and>
   monthlyCharge (boat_at (Storage 7) 20 (Finite 0)) = Finite 224 \<and>
   updateMonthlyCharges [boat_at (Slip 5) 30 (Finite 1000)] =
     [boat_at (Slip 5) 30 (Finite 1375)] \<and>
   round64 (56 / 5) = Finite (3152519739159347 / 281474976710656) \<and>
   \<bar>3152519739159347 / 281474976710656 - 56 / 5 :: rat\<bar> \<le> 56 / 5 / 2 ^ 53 \<and>
   round64 375 = Finite 375 \<and> round32 1375 = Finite 1375"
proof -
  note t = monthly_charges_added
  have i0: "0 < length [alice, bob]" and i1: "1 < length [alice, bob]" by simp_all
  have n0: "[alice, bob] ! 0 = alice" and n1: "[alice, bob] ! 1 = bob" by simp_all
  have ca: "fp_add round32 (amountOwed alice) (monthlyCharge alice) = Finite 350" by code_simp
  have cb: "fp_add round32 (amountOwed bob) (monthlyCharge bob) = Finite 260" by code_simp
  from t [where bs = "[alice, bob]" and i = 0, THEN conjunct2, THEN conjunct1, THEN mp, OF i0]
  have a1: "updateMonthlyCharges [alice, bob] ! 0 = alice\<lparr>amountOwed := Finite 350\<rparr>"
    by (simp only: n0 ca)
  from t [where bs = "[alice, bob]" and i = 1, THEN conjunct2, THEN conjunct1, THEN mp, OF i1]
  have a2: "updateMonthlyCharges [alice, bob] ! 1 = bob\<lparr>amountOwed := Finite 260\<rparr>"
    by (simp only: n1 cb)
  have s1: "locationType (location (boat_at (Slip 5) 30 (Finite 0))) = SLIP \<and>
            length_ft (boat_at (Slip 5) 30 (Finite 0)) = Finite 30"
    by (simp add: boat_at_def)
  have s2: "locationType (location (boat_at (Land (CHR ''B'')) 10 (Finite 0))) = LAND \<and>
            length_ft (boat_at (Land (CHR ''B'')) 10 (Finite 0)) = Finite 10"
    by (simp add: boat_at_def)
  have s3: "locationType (location (boat_at (Trailor ''TX1234'') 16 (Finite 0))) = TRAILOR \<and>
            length_ft (boat_at (Trailor ''TX1234'') 16 (Finite 0)) = Finite 16"
    by (simp add: boat_at_def)
  have s4: "locationType (location (boat_at (Storage 7) 20 (Finite 0))) = STORAGE \<and>
            length_ft (boat_at (Storage 7) 20 (Finite 0)) = Finite 20"
    by (simp add: boat_at_def)
  have b1: "monthlyCharge (boat_at (Slip 5) 30 (Finite 0)) = Finite 375"
    using t [where b = "boat_at (Slip 5) 30 (Finite 0)"] s1 by blast
  have b2: "monthlyCharge (boat_at (Land (CHR ''B'')) 10 (Finite 0)) = Finite 140"
    using t [where b = "boat_at (Land (CHR ''B'')) 10 (Finite 0)"] s2 by blast
  have b3: "monthlyCharge (boat_at (Trailor ''TX1234'') 16 (Finite 0)) = Finite 400"
    using t [where b = "boat_at (Trailor ''TX1234'') 16 (Finite 0)"] s3 by blast
  have b4: "monthlyCharge (boat_at (Storage 7) 20 (Finite 0)) = Finite 224"
    using t [where b = "boat_at (Storage 7) 20 (Finite 0)"] s4 by blast
  have r64: "round64 (of_int 375 * 2 powi 0) = Finite (of_int 375 * 2 powi 0)"
    using t [where m = 375 and e = 0] by simp
  then have c64: "round64 375 = Finite 375" by simp
  have r32: "round32 (of_int 1375 * 2 powi 0) = Finite (of_int 1375 * 2 powi 0)"
    using t [where m = 1375 and e = 0] by simp
  then have c32: "round32 1375 = Finite 1375" by simp
  have g1: "amountOwed (boat_at (Slip 5) 30 (Finite 1000)) = Finite 1000"
    by (simp add: boat_at_def)
  have s5: "locationType (location (boat_at (Slip 5) 30 (Finite 1000))) = SLIP \<and>
            length_ft (boat_at (Slip 5) 30 (Finite 1000)) = Finite 30"
    by (simp add: boat_at_def)
  have g2: "monthlyCharge (boat_at (Slip 5) 30 (Finite 1000)) = Finite 375"
    using t [where b = "boat_at (Slip 5) 30 (Finite 1000)"] s5 by blast
  have g3: "round32 (1000 + 375) = Finite (1000 + 375)" using c32 by simp
  have u: "(boat_at (Slip 5) 30 (Finite 1000))\<lparr>amountOwed := Finite (1000 + 375)\<rparr> =
           boat_at (Slip 5) 30 (Finite 1375)"
    by (simp add: boat_at_def)
  have g: "updateMonthlyCharges [boat_at (Slip 5) 30 (Finite 1000)] =
     [boat_at (Slip 5) 30 (Finite 1375)]"
    using t [where b = "boat_at (Slip 5) 30 (Finite 1000)" and a = 1000 and c = 375] g1 g2 g3
    unfolding u [symmetric] by blast
  have d: "round64 (56 / 5) = Finite (3152519739159347 / 281474976710656)" by code_simp
  have d2: "\<bar>3152519739159347 / 281474976710656 - 56 / 5 :: rat\<bar> \<le> 56 / 5 / 2 ^ 53"
    using t [where x = "56 / 5" and r = "3152519739159347 / 281474976710656"] d by simp
  from a1 a2 b1 b2 b3 b4 g d d2 c64 c32 show ?thesis by (intro conjI)
qed

section \<open>Texts that are no numbers\<close>













end
